theory Spec2Isabelle
  imports Main "HOL-Library.Tree"
begin

section \<open>The object store\<close>

text \<open>
  Nodes of \<^verbatim>\<open>binary-search-tree.js\<close> are JavaScript objects that point at each other
  (\<^verbatim>\<open>parent\<close>, \<^verbatim>\<open>leftChild\<close>, \<^verbatim>\<open>rightChild\<close>), and the removal algorithm works by rewriting
  these pointers. The model therefore keeps an explicit store: an object reference is an index
  into a list of node records, \<^verbatim>\<open>null\<close> is \<open>None\<close>, and \<^verbatim>\<open>new Node(...)\<close> appends a record
  to the store. Objects are never deallocated: a removed node stays in the store, as it
  stays alive in JavaScript for whoever still holds a reference to it.
\<close>

type_synonym ref = nat

record ('k, 'v) node =
  key :: 'k
  val :: 'v
  parent :: "ref option"
  leftChild :: "ref option"
  rightChild :: "ref option"

type_synonym ('k, 'v) store = "('k, 'v) node list"

text \<open>
  The two \<^verbatim>\<open>throw\<close> statements of the source, and the \<^verbatim>\<open>TypeError\<close> that JavaScript raises
  when a property of \<^verbatim>\<open>null\<close> is read or written. A reference that points outside the store
  cannot exist in JavaScript; the model gives it the same \<open>TypeError\<close>.
\<close>

datatype 'k exn = DuplicateKey 'k | KeyNotFound | TypeError

definition lookup :: "('k, 'v) store \<Rightarrow> ref \<Rightarrow> ('k, 'v) node option" where
  "lookup h a = (if a < length h then Some (h ! a) else None)"

text \<open>
  A mutating operation returns its result (or the exception it threw) together with the
  store as it is when the operation ends, so that what an exception leaves behind is visible.
\<close>

type_synonym ('k, 'v, 'a) res = "('k exn + 'a) \<times> ('k, 'v) store"

definition and_then ::
  "('k, 'v, 'a) res \<Rightarrow> ('a \<Rightarrow> ('k, 'v) store \<Rightarrow> ('k, 'v, 'b) res) \<Rightarrow> ('k, 'v, 'b) res" where
  "and_then m f = (case m of (Inl e, h) \<Rightarrow> (Inl e, h) | (Inr a, h) \<Rightarrow> f a h)"

definition set_parent :: "('k, 'v) store \<Rightarrow> ref \<Rightarrow> ref option \<Rightarrow> ('k, 'v, unit) res" where
  "set_parent h a p =
     (case lookup h a of
        None \<Rightarrow> (Inl TypeError, h)
      | Some nd \<Rightarrow> (Inr (), h[a := nd\<lparr>parent := p\<rparr>]))"

definition set_leftChild :: "('k, 'v) store \<Rightarrow> ref \<Rightarrow> ref option \<Rightarrow> ('k, 'v, unit) res" where
  "set_leftChild h a c =
     (case lookup h a of
        None \<Rightarrow> (Inl TypeError, h)
      | Some nd \<Rightarrow> (Inr (), h[a := nd\<lparr>leftChild := c\<rparr>]))"

definition set_rightChild :: "('k, 'v) store \<Rightarrow> ref \<Rightarrow> ref option \<Rightarrow> ('k, 'v, unit) res" where
  "set_rightChild h a c =
     (case lookup h a of
        None \<Rightarrow> (Inl TypeError, h)
      | Some nd \<Rightarrow> (Inr (), h[a := nd\<lparr>rightChild := c\<rparr>]))"

section \<open>Node\<close>

text \<open>
  \<^verbatim>\<open>new BinarySearchTree.prototype.Node(key, value, parent)\<close>: the new object gets the next
  free index of the store, and both children are \<^verbatim>\<open>null\<close>.
\<close>

definition new_Node ::
  "('k, 'v) store \<Rightarrow> 'k \<Rightarrow> 'v \<Rightarrow> ref option \<Rightarrow> ref \<times> ('k, 'v) store" where
  "new_Node h k v p =
     (length h,
      h @ [\<lparr>key = k, val = v, parent = p, leftChild = None, rightChild = None\<rparr>])"

text \<open>
  The loops of the source follow pointers, and on a cyclic store they do not end. They are
  partial functions: \<open>None\<close> means that the loop runs forever, \<open>Some (Inl e)\<close> that it throws
  \<open>e\<close>, \<open>Some (Inr x)\<close> that it returns \<open>x\<close>.
\<close>

text \<open>
  \<^verbatim>\<open>Node.prototype.traverse\<close>. The callback is the one that records the node it is called
  with, so the result is the list of the nodes visited, in the order of the visits. The
  array \<^verbatim>\<open>ancestors\<close> is a stack; its top is the head of the list.
\<close>

partial_function (option) traverse_loop ::
  "('k, 'v) store \<Rightarrow> ref list \<Rightarrow> ref option \<Rightarrow> ref list \<Rightarrow> ('k exn + ref list) option" where
  "traverse_loop h ancestors currNode visited =
     (case currNode of
        None \<Rightarrow>
          (case ancestors of
             [] \<Rightarrow> Some (Inr visited)
           | a # rest \<Rightarrow>
               (case lookup h a of
                  None \<Rightarrow> Some (Inl TypeError)
                | Some nd \<Rightarrow> traverse_loop h rest (rightChild nd) (visited @ [a])))
      | Some c \<Rightarrow>
          (case lookup h c of
             None \<Rightarrow> Some (Inl TypeError)
           | Some nd \<Rightarrow> traverse_loop h (c # ancestors) (leftChild nd) visited))"

declare traverse_loop.simps [code]

definition node_traverse :: "('k, 'v) store \<Rightarrow> ref \<Rightarrow> ('k exn + ref list) option" where
  "node_traverse h this =
     (case lookup h this of
        None \<Rightarrow> Some (Inl TypeError)
      | Some nd \<Rightarrow> traverse_loop h [this] (leftChild nd) [])"

text \<open>\<^verbatim>\<open>Node.prototype.min\<close> and \<^verbatim>\<open>Node.prototype.max\<close>.\<close>

partial_function (option) node_min :: "('k, 'v) store \<Rightarrow> ref \<Rightarrow> ('k exn + ref) option" where
  "node_min h currNode =
     (case lookup h currNode of
        None \<Rightarrow> Some (Inl TypeError)
      | Some nd \<Rightarrow>
          (case leftChild nd of
             None \<Rightarrow> Some (Inr currNode)
           | Some c \<Rightarrow> node_min h c))"

declare node_min.simps [code]

partial_function (option) node_max :: "('k, 'v) store \<Rightarrow> ref \<Rightarrow> ('k exn + ref) option" where
  "node_max h currNode =
     (case lookup h currNode of
        None \<Rightarrow> Some (Inl TypeError)
      | Some nd \<Rightarrow>
          (case rightChild nd of
             None \<Rightarrow> Some (Inr currNode)
           | Some c \<Rightarrow> node_max h c))"

declare node_max.simps [code]

text \<open>
  \<^verbatim>\<open>Node.prototype.predecessor\<close> and \<^verbatim>\<open>Node.prototype.successor\<close>: the maximum of the left
  subtree (the minimum of the right one) when there is one, otherwise the climb through the
  parent pointers, which is the loop below.
\<close>

partial_function (option) predecessor_loop ::
  "('k, 'v) store \<Rightarrow> ref \<Rightarrow> ref option \<Rightarrow> ('k exn + ref option) option" where
  "predecessor_loop h prevNode currNode =
     (case currNode of
        None \<Rightarrow> Some (Inr None)
      | Some c \<Rightarrow>
          (case lookup h c of
             None \<Rightarrow> Some (Inl TypeError)
           | Some nd \<Rightarrow>
               if rightChild nd = Some prevNode then Some (Inr (Some c))
               else predecessor_loop h c (parent nd)))"

declare predecessor_loop.simps [code]

definition predecessor :: "('k, 'v) store \<Rightarrow> ref \<Rightarrow> ('k exn + ref option) option" where
  "predecessor h this =
     (case lookup h this of
        None \<Rightarrow> Some (Inl TypeError)
      | Some nd \<Rightarrow>
          (case leftChild nd of
             Some l \<Rightarrow> map_option (map_sum id Some) (node_max h l)
           | None \<Rightarrow> predecessor_loop h this (parent nd)))"

partial_function (option) successor_loop ::
  "('k, 'v) store \<Rightarrow> ref \<Rightarrow> ref option \<Rightarrow> ('k exn + ref option) option" where
  "successor_loop h prevNode currNode =
     (case currNode of
        None \<Rightarrow> Some (Inr None)
      | Some c \<Rightarrow>
          (case lookup h c of
             None \<Rightarrow> Some (Inl TypeError)
           | Some nd \<Rightarrow>
               if leftChild nd = Some prevNode then Some (Inr (Some c))
               else successor_loop h c (parent nd)))"

declare successor_loop.simps [code]

definition successor :: "('k, 'v) store \<Rightarrow> ref \<Rightarrow> ('k exn + ref option) option" where
  "successor h this =
     (case lookup h this of
        None \<Rightarrow> Some (Inl TypeError)
      | Some nd \<Rightarrow>
          (case rightChild nd of
             Some r \<Rightarrow> map_option (map_sum id Some) (node_min h r)
           | None \<Rightarrow> successor_loop h this (parent nd)))"

text \<open>\<^verbatim>\<open>Node.prototype.get\<close>: a \<^verbatim>\<open>do ... while\<close> loop, so the first node is not tested for \<^verbatim>\<open>null\<close>.\<close>

partial_function (option) node_get ::
  "('k::linorder, 'v) store \<Rightarrow> ref \<Rightarrow> 'k \<Rightarrow> ('k exn + ref option) option" where
  "node_get h currNode k =
     (case lookup h currNode of
        None \<Rightarrow> Some (Inl TypeError)
      | Some nd \<Rightarrow>
          if k < key nd then
            (case leftChild nd of None \<Rightarrow> Some (Inr None) | Some c \<Rightarrow> node_get h c k)
          else if k > key nd then
            (case rightChild nd of None \<Rightarrow> Some (Inr None) | Some c \<Rightarrow> node_get h c k)
          else Some (Inr (Some currNode)))"

declare node_get.simps [code]

text \<open>\<^verbatim>\<open>Node.prototype.insert\<close>: returns the created node, or throws on a key it meets.\<close>

partial_function (option) node_insert ::
  "('k::linorder, 'v) store \<Rightarrow> ref \<Rightarrow> 'k \<Rightarrow> 'v \<Rightarrow> ('k, 'v, ref) res option" where
  "node_insert h currNode k v =
     (case lookup h currNode of
        None \<Rightarrow> Some (Inl TypeError, h)
      | Some nd \<Rightarrow>
          if k < key nd then
            (case leftChild nd of
               None \<Rightarrow>
                 (let (n, h1) = new_Node h k v (Some currNode)
                  in Some (and_then (set_leftChild h1 currNode (Some n)) (\<lambda>_ h2. (Inr n, h2))))
             | Some c \<Rightarrow> node_insert h c k v)
          else if k > key nd then
            (case rightChild nd of
               None \<Rightarrow>
                 (let (n, h1) = new_Node h k v (Some currNode)
                  in Some (and_then (set_rightChild h1 currNode (Some n)) (\<lambda>_ h2. (Inr n, h2))))
             | Some c \<Rightarrow> node_insert h c k v)
          else Some (Inl (DuplicateKey k), h))"

declare node_insert.simps [code]

text \<open>\<^verbatim>\<open>Node.prototype.replaceWith\<close>.\<close>

definition replaceWith :: "('k, 'v) store \<Rightarrow> ref \<Rightarrow> ref option \<Rightarrow> ('k, 'v, unit) res" where
  "replaceWith h this node =
     (case lookup h this of
        None \<Rightarrow> (Inl TypeError, h)
      | Some t \<Rightarrow>
          (let par = parent t in
           and_then (case node of None \<Rightarrow> (Inr (), h) | Some n \<Rightarrow> set_parent h n par)
             (\<lambda>_ h1.
                case par of
                  None \<Rightarrow> (Inr (), h1)
                | Some p \<Rightarrow>
                    (case lookup h1 p of
                       None \<Rightarrow> (Inl TypeError, h1)
                     | Some pn \<Rightarrow>
                         if leftChild pn = Some this then set_leftChild h1 p node
                         else set_rightChild h1 p node))))"

text \<open>
  \<^verbatim>\<open>Node.prototype.adoptLeftChild\<close> and \<^verbatim>\<open>Node.prototype.adoptRightChild\<close>. The source
  assumes that the given node has the child; when it has not, writing the \<^verbatim>\<open>parent\<close> of \<^verbatim>\<open>null\<close>
  is a \<open>TypeError\<close>.
\<close>

definition adoptLeftChild :: "('k, 'v) store \<Rightarrow> ref \<Rightarrow> ref \<Rightarrow> ('k, 'v, unit) res" where
  "adoptLeftChild h this node =
     (case lookup h node of
        None \<Rightarrow> (Inl TypeError, h)
      | Some nd \<Rightarrow>
          (case leftChild nd of
             None \<Rightarrow> (Inl TypeError, h)
           | Some c \<Rightarrow>
               and_then (set_parent h c (Some this))
                 (\<lambda>_ h1.
                    case lookup h1 node of
                      None \<Rightarrow> (Inl TypeError, h1)
                    | Some nd1 \<Rightarrow> set_leftChild h1 this (leftChild nd1))))"

definition adoptRightChild :: "('k, 'v) store \<Rightarrow> ref \<Rightarrow> ref \<Rightarrow> ('k, 'v, unit) res" where
  "adoptRightChild h this node =
     (case lookup h node of
        None \<Rightarrow> (Inl TypeError, h)
      | Some nd \<Rightarrow>
          (case rightChild nd of
             None \<Rightarrow> (Inl TypeError, h)
           | Some c \<Rightarrow>
               and_then (set_parent h c (Some this))
                 (\<lambda>_ h1.
                    case lookup h1 node of
                      None \<Rightarrow> (Inl TypeError, h1)
                    | Some nd1 \<Rightarrow> set_rightChild h1 this (rightChild nd1))))"

text \<open>
  \<^verbatim>\<open>Node.prototype.remove\<close>. The test \<^verbatim>\<open>this.parent === null || this.parent.leftChild === this\<close>
  is \<open>is_root_or_left\<close>; the two branches with both children are \<open>remove_with_predecessor\<close>
  and \<open>remove_with_successor\<close>, each ending, like the other branches, in
  \<^verbatim>\<open>this.replaceWith(replacementNode); return replacementNode\<close>, which is \<open>remove_finish\<close>.
\<close>

definition remove_finish ::
  "('k, 'v) store \<Rightarrow> ref \<Rightarrow> ref option \<Rightarrow> ('k, 'v, ref option) res" where
  "remove_finish h this replacementNode =
     and_then (replaceWith h this replacementNode) (\<lambda>_ h1. (Inr replacementNode, h1))"

definition is_root_or_left :: "('k, 'v) store \<Rightarrow> ref \<Rightarrow> ('k, 'v) node \<Rightarrow> 'k exn + bool" where
  "is_root_or_left h this t =
     (case parent t of
        None \<Rightarrow> Inr True
      | Some p \<Rightarrow>
          (case lookup h p of
             None \<Rightarrow> Inl TypeError
           | Some pn \<Rightarrow> Inr (leftChild pn = Some this)))"

definition remove_with_predecessor ::
  "('k, 'v) store \<Rightarrow> ref \<Rightarrow> ref \<Rightarrow> ref \<Rightarrow> ('k, 'v, ref option) res" where
  "remove_with_predecessor h this l replacementNode =
     and_then
       (if replacementNode \<noteq> l then
          (case lookup h replacementNode of
             None \<Rightarrow> (Inl TypeError, h)
           | Some rn \<Rightarrow>
               and_then (replaceWith h replacementNode (leftChild rn))
                 (\<lambda>_ h1. adoptLeftChild h1 replacementNode this))
        else (Inr (), h))
       (\<lambda>_ h2.
          and_then (adoptRightChild h2 replacementNode this)
            (\<lambda>_ h3. remove_finish h3 this (Some replacementNode)))"

definition remove_with_successor ::
  "('k, 'v) store \<Rightarrow> ref \<Rightarrow> ref \<Rightarrow> ref \<Rightarrow> ('k, 'v, ref option) res" where
  "remove_with_successor h this r replacementNode =
     and_then
       (if replacementNode \<noteq> r then
          (case lookup h replacementNode of
             None \<Rightarrow> (Inl TypeError, h)
           | Some rn \<Rightarrow>
               and_then (replaceWith h replacementNode (rightChild rn))
                 (\<lambda>_ h1. adoptRightChild h1 replacementNode this))
        else (Inr (), h))
       (\<lambda>_ h2.
          and_then (adoptLeftChild h2 replacementNode this)
            (\<lambda>_ h3. remove_finish h3 this (Some replacementNode)))"

definition node_remove :: "('k, 'v) store \<Rightarrow> ref \<Rightarrow> ('k, 'v, ref option) res option" where
  "node_remove h this =
     (case lookup h this of
        None \<Rightarrow> Some (Inl TypeError, h)
      | Some t \<Rightarrow>
          (case rightChild t of
             None \<Rightarrow> Some (remove_finish h this (leftChild t))
           | Some r \<Rightarrow>
               (case leftChild t of
                  None \<Rightarrow> Some (remove_finish h this (rightChild t))
                | Some l \<Rightarrow>
                    (case is_root_or_left h this t of
                       Inl e \<Rightarrow> Some (Inl e, h)
                     | Inr True \<Rightarrow>
                         (case node_max h l of
                            None \<Rightarrow> None
                          | Some (Inl e) \<Rightarrow> Some (Inl e, h)
                          | Some (Inr m) \<Rightarrow> Some (remove_with_predecessor h this l m))
                     | Inr False \<Rightarrow>
                         (case node_min h r of
                            None \<Rightarrow> None
                          | Some (Inl e) \<Rightarrow> Some (Inl e, h)
                          | Some (Inr m) \<Rightarrow> Some (remove_with_successor h this r m))))))"

section \<open>BinarySearchTree\<close>

text \<open>
  The container: the store of its nodes, \<^verbatim>\<open>root\<close> and \<^verbatim>\<open>numNodes\<close>. A JavaScript function
  that ends without a \<^verbatim>\<open>return\<close> statement returns \<^verbatim>\<open>undefined\<close>.
\<close>

record ('k, 'v) bst =
  heap :: "('k, 'v) store"
  root :: "ref option"
  numNodes :: int

datatype retval = Undefined | NodeRef ref

type_synonym ('k, 'v, 'a) tres = "('k exn + 'a) \<times> ('k, 'v) bst"

definition new_BinarySearchTree :: "('k, 'v) bst" where
  "new_BinarySearchTree = \<lparr>heap = [], root = None, numNodes = 0\<rparr>"

definition tree_traverse :: "('k, 'v) bst \<Rightarrow> ('k exn + ref list) option" where
  "tree_traverse t =
     (case root t of None \<Rightarrow> Some (Inr []) | Some r \<Rightarrow> node_traverse (heap t) r)"

definition tree_min :: "('k, 'v) bst \<Rightarrow> ('k exn + ref option) option" where
  "tree_min t =
     (case root t of
        None \<Rightarrow> Some (Inr None)
      | Some r \<Rightarrow> map_option (map_sum id Some) (node_min (heap t) r))"

definition tree_max :: "('k, 'v) bst \<Rightarrow> ('k exn + ref option) option" where
  "tree_max t =
     (case root t of
        None \<Rightarrow> Some (Inr None)
      | Some r \<Rightarrow> map_option (map_sum id Some) (node_max (heap t) r))"

definition tree_get :: "('k::linorder, 'v) bst \<Rightarrow> 'k \<Rightarrow> ('k exn + ref option) option" where
  "tree_get t k =
     (case root t of None \<Rightarrow> Some (Inr None) | Some r \<Rightarrow> node_get (heap t) r k)"

text \<open>
  \<^verbatim>\<open>BinarySearchTree.prototype.insert\<close>: the node that \<^verbatim>\<open>this.root.insert\<close> returns is dropped,
  and the function has no \<^verbatim>\<open>return\<close> statement. An exception of \<^verbatim>\<open>this.root.insert\<close> leaves
  the function before \<^verbatim>\<open>this.numNodes++\<close>.
\<close>

definition tree_insert ::
  "('k::linorder, 'v) bst \<Rightarrow> 'k \<Rightarrow> 'v \<Rightarrow> ('k, 'v, retval) tres option" where
  "tree_insert t k v =
     (case root t of
        None \<Rightarrow>
          (let (n, h1) = new_Node (heap t) k v None
           in Some (Inr Undefined, t\<lparr>heap := h1, root := Some n, numNodes := numNodes t + 1\<rparr>))
      | Some r \<Rightarrow>
          (case node_insert (heap t) r k v of
             None \<Rightarrow> None
           | Some (Inl e, h1) \<Rightarrow> Some (Inl e, t\<lparr>heap := h1\<rparr>)
           | Some (Inr n, h1) \<Rightarrow>
               Some (Inr Undefined, t\<lparr>heap := h1, numNodes := numNodes t + 1\<rparr>)))"

text \<open>\<^verbatim>\<open>BinarySearchTree.prototype.remove\<close>.\<close>

definition tree_remove ::
  "('k::linorder, 'v) bst \<Rightarrow> 'k \<Rightarrow> ('k, 'v, retval) tres option" where
  "tree_remove t k =
     (case tree_get t k of
        None \<Rightarrow> None
      | Some (Inl e) \<Rightarrow> Some (Inl e, t)
      | Some (Inr None) \<Rightarrow> Some (Inl KeyNotFound, t)
      | Some (Inr (Some nodeToRemove)) \<Rightarrow>
          (case node_remove (heap t) nodeToRemove of
             None \<Rightarrow> None
           | Some (Inl e, h1) \<Rightarrow> Some (Inl e, t\<lparr>heap := h1\<rparr>)
           | Some (Inr replacementNode, h1) \<Rightarrow>
               Some (Inr Undefined,
                     t\<lparr>heap := h1,
                       root := (if root t = Some nodeToRemove then replacementNode else root t),
                       numNodes := numNodes t - 1\<rparr>)))"

text \<open>
  \<^verbatim>\<open>node.remove()\<close> called on a node of a tree by a caller that holds the reference (the
  result of \<^verbatim>\<open>get\<close>, say). A node has no link to its container, so \<^verbatim>\<open>root\<close> and
  \<^verbatim>\<open>numNodes\<close> of the tree stay as they are; only the store changes.
\<close>

definition tree_node_remove ::
  "('k, 'v) bst \<Rightarrow> ref \<Rightarrow> ('k, 'v, ref option) tres option" where
  "tree_node_remove t n =
     (case node_remove (heap t) n of
        None \<Rightarrow> None
      | Some (r, h1) \<Rightarrow> Some (r, t\<lparr>heap := h1\<rparr>))"

definition size_bst :: "('k, 'v) bst \<Rightarrow> int" where
  "size_bst t = numNodes t"

section \<open>Sequences of operations\<close>

text \<open>
  A caller that applies one operation after the other to the same tree, and goes on after an
  exception (it catches it): the next operation sees the tree as the exception left it.
\<close>

datatype ('k, 'v) op = Insert 'k 'v | Remove 'k

definition apply_op :: "('k::linorder, 'v) bst \<Rightarrow> ('k, 'v) op \<Rightarrow> ('k, 'v) bst option" where
  "apply_op t c =
     map_option snd (case c of Insert k v \<Rightarrow> tree_insert t k v | Remove k \<Rightarrow> tree_remove t k)"

fun apply_ops :: "('k::linorder, 'v) bst \<Rightarrow> ('k, 'v) op list \<Rightarrow> ('k, 'v) bst option" where
  "apply_ops t [] = Some t"
| "apply_ops t (c # cs) =
     (case apply_op t c of None \<Rightarrow> None | Some t1 \<Rightarrow> apply_ops t1 cs)"

text \<open>
  What a traversal shows of a tree: the key and the value of each node visited, in the
  order of the visits (the callback reads \<^verbatim>\<open>node.key\<close> and \<^verbatim>\<open>node.value\<close>).
\<close>

definition key_of :: "('k, 'v) store \<Rightarrow> ref \<Rightarrow> 'k" where
  "key_of h a = key (h ! a)"

definition val_of :: "('k, 'v) store \<Rightarrow> ref \<Rightarrow> 'v" where
  "val_of h a = val (h ! a)"

definition tree_entries :: "('k, 'v) bst \<Rightarrow> ('k exn + ('k \<times> 'v) list) option" where
  "tree_entries t =
     map_option (map_sum id (map (\<lambda>a. (key_of (heap t) a, val_of (heap t) a)))) (tree_traverse t)"

section \<open>Well-formed trees\<close>

text \<open>
  The nodes that can be reached from a pointer by following \<^verbatim>\<open>leftChild\<close> and \<^verbatim>\<open>rightChild\<close>.
\<close>

inductive_set reach :: "('k, 'v) store \<Rightarrow> ref option \<Rightarrow> ref set"
  for h :: "('k, 'v) store" and p :: "ref option" where
  reach_root: "p = Some a \<Longrightarrow> a \<in> reach h p"
| reach_left: "a \<in> reach h p \<Longrightarrow> lookup h a = Some nd \<Longrightarrow> leftChild nd = Some c \<Longrightarrow> c \<in> reach h p"
| reach_right: "a \<in> reach h p \<Longrightarrow> lookup h a = Some nd \<Longrightarrow> rightChild nd = Some c \<Longrightarrow> c \<in> reach h p"

text \<open>
  \<open>shape h p par t\<close>: in the store \<open>h\<close>, the pointer \<open>p\<close> is the root of a subtree whose nodes
  are laid out as the tree \<open>t\<close> of references says, the root's \<^verbatim>\<open>parent\<close> is \<open>par\<close>, and the
  \<^verbatim>\<open>parent\<close> of every other node is the node whose child it is.
\<close>

fun shape :: "('k, 'v) store \<Rightarrow> ref option \<Rightarrow> ref option \<Rightarrow> ref tree \<Rightarrow> bool" where
  "shape h p par Leaf = (p = None)"
| "shape h p par (Node l a r) =
     (p = Some a \<and>
      (case lookup h a of
         None \<Rightarrow> False
       | Some nd \<Rightarrow>
           parent nd = par \<and> shape h (leftChild nd) (Some a) l \<and> shape h (rightChild nd) (Some a) r))"

text \<open>
  A tree is well linked when its root pointer is the root of such a layout in which no node
  occurs twice, and well formed when, moreover, the keys ascend strictly along the layout
  (the BST invariant).
\<close>

definition linked :: "('k, 'v) bst \<Rightarrow> ref tree \<Rightarrow> bool" where
  "linked t lay = (shape (heap t) (root t) None lay \<and> distinct (inorder lay))"

definition ordered :: "('k::linorder, 'v) store \<Rightarrow> ref tree \<Rightarrow> bool" where
  "ordered h lay = sorted_wrt (<) (map (key_of h) (inorder lay))"

definition well_linked :: "('k, 'v) bst \<Rightarrow> bool" where
  "well_linked t = (\<exists>lay. linked t lay)"

definition well_formed :: "('k::linorder, 'v) bst \<Rightarrow> bool" where
  "well_formed t = (\<exists>lay. linked t lay \<and> ordered (heap t) lay)"

text \<open>The nodes of a tree, and its keys.\<close>

definition tree_nodes :: "('k, 'v) bst \<Rightarrow> ref set" where
  "tree_nodes t = reach (heap t) (root t)"

definition tree_keys :: "('k, 'v) bst \<Rightarrow> 'k set" where
  "tree_keys t = key_of (heap t) ` tree_nodes t"

text \<open>The layouts that insertion and removal produce.\<close>

fun ins_tree :: "(ref \<Rightarrow> 'k::linorder) \<Rightarrow> 'k \<Rightarrow> ref \<Rightarrow> ref tree \<Rightarrow> ref tree" where
  "ins_tree kf k n Leaf = Node Leaf n Leaf"
| "ins_tree kf k n (Node l a r) =
     (if k < kf a then Node (ins_tree kf k n l) a r
      else if k > kf a then Node l a (ins_tree kf k n r)
      else Node l a r)"

fun del_max :: "'a tree \<Rightarrow> 'a tree" where
  "del_max Leaf = Leaf"
| "del_max (Node l a r) = (if r = Leaf then l else Node l a (del_max r))"

fun del_min :: "'a tree \<Rightarrow> 'a tree" where
  "del_min Leaf = Leaf"
| "del_min (Node l a r) = (if l = Leaf then r else Node (del_min l) a r)"

fun splice :: "bool \<Rightarrow> 'a tree \<Rightarrow> 'a tree" where
  "splice b Leaf = Leaf"
| "splice b (Node l a r) =
     (if r = Leaf then l
      else if l = Leaf then r
      else if b then Node (del_max l) (last (inorder l)) r
      else Node l (hd (inorder r)) (del_min r))"

fun remove_tree :: "'a \<Rightarrow> bool \<Rightarrow> 'a tree \<Rightarrow> 'a tree" where
  "remove_tree n b Leaf = Leaf"
| "remove_tree n b (Node l a r) =
     (if a = n then splice b (Node l a r)
      else Node (remove_tree n True l) a (remove_tree n False r))"

section \<open>What an operation leaves of the store\<close>

text \<open>
  \<open>relinked h h'\<close>: the store \<open>h'\<close> holds the same objects as \<open>h\<close>, each with its key and its
  value; only links may differ.
\<close>

definition relinked :: "('k, 'v) store \<Rightarrow> ('k, 'v) store \<Rightarrow> bool" where
  "relinked h h' \<longleftrightarrow>
     length h' = length h \<and>
     (\<forall>a. a < length h \<longrightarrow> key_of h' a = key_of h a \<and> val_of h' a = val_of h a)"

text \<open>
  The cell at \<open>a\<close> after \<^verbatim>\<open>this.replaceWith(node)\<close>, after \<^verbatim>\<open>this.adoptLeftChild\<close> and after
  \<^verbatim>\<open>this.adoptRightChild\<close>, as a function of the cell before.
\<close>

definition replaced :: "ref \<Rightarrow> ref option \<Rightarrow> ref option \<Rightarrow> ref \<Rightarrow> ('k, 'v) node \<Rightarrow> ('k, 'v) node" where
  "replaced this par node a = (\<lambda>nd.
      let nd1 = (if node = Some a then nd\<lparr>parent := par\<rparr> else nd)
      in if par = Some a
         then (if leftChild nd1 = Some this then nd1\<lparr>leftChild := node\<rparr>
               else nd1\<lparr>rightChild := node\<rparr>)
         else nd1)"

definition adopted_left :: "ref \<Rightarrow> ref \<Rightarrow> ref \<Rightarrow> ('k, 'v) node \<Rightarrow> ('k, 'v) node" where
  "adopted_left this c a = (\<lambda>nd.
      let nd1 = (if a = c then nd\<lparr>parent := Some this\<rparr> else nd)
      in if a = this then nd1\<lparr>leftChild := Some c\<rparr> else nd1)"

definition adopted_right :: "ref \<Rightarrow> ref \<Rightarrow> ref \<Rightarrow> ('k, 'v) node \<Rightarrow> ('k, 'v) node" where
  "adopted_right this c a = (\<lambda>nd.
      let nd1 = (if a = c then nd\<lparr>parent := Some this\<rparr> else nd)
      in if a = this then nd1\<lparr>rightChild := Some c\<rparr> else nd1)"

text \<open>
  \<open>spliced h n par S rp h'\<close>: what removing \<open>n\<close>, whose parent pointer is \<open>par\<close> and whose
  subtree has the nodes \<open>S\<close>, changes outside this subtree: nothing but the child pointer of
  the parent that pointed at \<open>n\<close>, which now holds \<open>rp\<close>. The node \<open>n\<close> itself is untouched.
\<close>

definition spliced ::
  "('k, 'v) store \<Rightarrow> ref \<Rightarrow> ref option \<Rightarrow> ref set \<Rightarrow> ref option \<Rightarrow> ('k, 'v) store \<Rightarrow> bool" where
  "spliced h n par S rp h' \<longleftrightarrow>
     relinked h h' \<and> lookup h' n = lookup h n \<and>
     (\<forall>a. a \<notin> S \<longrightarrow> par \<noteq> Some a \<longrightarrow> lookup h' a = lookup h a) \<and>
     (\<forall>p pn. par = Some p \<longrightarrow> lookup h p = Some pn \<longrightarrow>
        lookup h' p = Some (if leftChild pn = Some n then pn\<lparr>leftChild := rp\<rparr>
                            else pn\<lparr>rightChild := rp\<rparr>))"

text \<open>What an insertion of the key \<open>k\<close> below the nodes of \<open>t\<close> leaves of the store.\<close>

definition ins_post ::
  "('k::linorder, 'v) store \<Rightarrow> ref tree \<Rightarrow> 'k \<Rightarrow> 'v \<Rightarrow> ('k, 'v) store \<Rightarrow> bool" where
  "ins_post h t k v h' \<longleftrightarrow>
     length h' = Suc (length h) \<and>
     (\<forall>a. a < length h \<longrightarrow> a \<notin> set_tree t \<longrightarrow> lookup h' a = lookup h a) \<and>
     (\<forall>a. a < length h \<longrightarrow> key_of h' a = key_of h a \<and> val_of h' a = val_of h a) \<and>
     key_of h' (length h) = k \<and> val_of h' (length h) = v"

section \<open>An example tree\<close>

text \<open>
  The tree that inserting the keys 5, 2, 8, 3, 7, 9 in this order builds; the references are
  0 to 5 in the order of creation. Node 0 (key 5) is the root and has two children; node 2
  (key 8) is a right child and has two children.
\<close>

definition example_tree :: "(int, string) bst" where
  "example_tree =
     \<lparr>heap =
        [\<lparr>key = 5, val = ''five'', parent = None, leftChild = Some 1, rightChild = Some 2\<rparr>,
         \<lparr>key = 2, val = ''two'', parent = Some 0, leftChild = None, rightChild = Some 3\<rparr>,
         \<lparr>key = 8, val = ''eight'', parent = Some 0, leftChild = Some 4, rightChild = Some 5\<rparr>,
         \<lparr>key = 3, val = ''three'', parent = Some 1, leftChild = None, rightChild = None\<rparr>,
         \<lparr>key = 7, val = ''seven'', parent = Some 2, leftChild = None, rightChild = None\<rparr>,
         \<lparr>key = 9, val = ''nine'', parent = Some 2, leftChild = None, rightChild = None\<rparr>],
      root = Some 0, numNodes = 6\<rparr>"

definition example_layout :: "ref tree" where
  "example_layout =
     Node (Node Leaf 1 (Node Leaf 3 Leaf)) 0 (Node (Node Leaf 4 Leaf) 2 (Node Leaf 5 Leaf))"

definition example_ops :: "(int, string) op list" where
  "example_ops =
     [Insert 5 ''five'', Insert 2 ''two'', Insert 8 ''eight'', Insert 3 ''three'',
      Insert 7 ''seven'', Insert 9 ''nine'']"

text \<open>
  The example tree after \<^verbatim>\<open>remove()\<close> was called on its root node 0: node 3, the
  predecessor, has taken the links of node 0, and \<^verbatim>\<open>root\<close> still points to node 0.
\<close>

definition example_after_node_remove :: "(int, string) bst" where
  "example_after_node_remove =
     \<lparr>heap =
        [\<lparr>key = 5, val = ''five'', parent = None, leftChild = Some 1, rightChild = Some 2\<rparr>,
         \<lparr>key = 2, val = ''two'', parent = Some 3, leftChild = None, rightChild = None\<rparr>,
         \<lparr>key = 8, val = ''eight'', parent = Some 3, leftChild = Some 4, rightChild = Some 5\<rparr>,
         \<lparr>key = 3, val = ''three'', parent = None, leftChild = Some 1, rightChild = Some 2\<rparr>,
         \<lparr>key = 7, val = ''seven'', parent = Some 2, leftChild = None, rightChild = None\<rparr>,
         \<lparr>key = 9, val = ''nine'', parent = Some 2, leftChild = None, rightChild = None\<rparr>],
      root = Some 0, numNodes = 6\<rparr>"

section \<open>Lemmas\<close>

subsection \<open>Store lookups\<close>

lemma lookup_update:
  "lookup (h[a := x]) b = (if b = a \<and> a < length h then Some x else lookup h b)"
  by (auto simp: lookup_def)

lemma lookup_append: "lookup (h @ [x]) b = (if b = length h then Some x else lookup h b)"
  by (auto simp: lookup_def nth_append)

lemma lookup_less: "lookup h a = Some nd \<Longrightarrow> a < length h"
  by (auto simp: lookup_def split: if_splits)

lemma lookup_nth: "lookup h a = Some nd \<Longrightarrow> h ! a = nd"
  by (auto simp: lookup_def split: if_splits)

lemma lookup_key_of: "lookup h a = Some nd \<Longrightarrow> key_of h a = key nd"
  by (simp add: key_of_def lookup_nth)

lemma lookup_val_of: "lookup h a = Some nd \<Longrightarrow> val_of h a = val nd"
  by (simp add: val_of_def lookup_nth)

lemma less_lookup: "a < length h \<Longrightarrow> \<exists>nd. lookup h a = Some nd"
  by (simp add: lookup_def)

subsection \<open>Layouts\<close>

lemma shape_None [simp]: "shape h None par t = (t = Leaf)"
  by (cases t) auto

lemma shape_Some:
  "shape h (Some a) par t =
     (\<exists>l r nd. t = Node l a r \<and> lookup h a = Some nd \<and> parent nd = par \<and>
        shape h (leftChild nd) (Some a) l \<and> shape h (rightChild nd) (Some a) r)"
  by (cases t) (auto split: option.splits)

lemma shape_less: "shape h p par t \<Longrightarrow> a \<in> set_tree t \<Longrightarrow> a < length h"
  by (induction t arbitrary: p par) (auto split: option.splits dest: lookup_less)

lemma shape_frame:
  "shape h p par t \<Longrightarrow> (\<And>a. a \<in> set_tree t \<Longrightarrow> lookup h' a = lookup h a) \<Longrightarrow> shape h' p par t"
proof (induction t arbitrary: p par)
  case Leaf
  then show ?case by simp
next
  case (Node l a r)
  from Node.prems(1) obtain nd where nd: "p = Some a" "lookup h a = Some nd" "parent nd = par"
    "shape h (leftChild nd) (Some a) l" "shape h (rightChild nd) (Some a) r"
    by (auto split: option.splits)
  have "lookup h' a = Some nd" using Node.prems(2)[of a] nd by simp
  moreover have "shape h' (leftChild nd) (Some a) l"
    using Node.IH(1)[OF nd(4)] Node.prems(2) by simp
  moreover have "shape h' (rightChild nd) (Some a) r"
    using Node.IH(2)[OF nd(5)] Node.prems(2) by simp
  ultimately show ?case using nd by simp
qed

lemma reach_trans: "x \<in> reach h (Some c) \<Longrightarrow> c \<in> reach h p \<Longrightarrow> x \<in> reach h p"
  by (induction rule: reach.induct) (auto intro: reach.intros)

lemma shape_child_left:
  "shape h p par t \<Longrightarrow> a \<in> set_tree t \<Longrightarrow> lookup h a = Some nd \<Longrightarrow> leftChild nd = Some c
     \<Longrightarrow> c \<in> set_tree t"
  by (induction t arbitrary: p par) (auto split: option.splits simp: shape_Some)

lemma shape_child_right:
  "shape h p par t \<Longrightarrow> a \<in> set_tree t \<Longrightarrow> lookup h a = Some nd \<Longrightarrow> rightChild nd = Some c
     \<Longrightarrow> c \<in> set_tree t"
  by (induction t arbitrary: p par) (auto split: option.splits simp: shape_Some)

lemma reach_in_shape: "x \<in> reach h p \<Longrightarrow> shape h p par t \<Longrightarrow> x \<in> set_tree t"
proof (induction rule: reach.induct)
  case (reach_root a)
  then show ?case by (auto simp: shape_Some)
next
  case (reach_left a nd c)
  then show ?case by (blast intro: shape_child_left)
next
  case (reach_right a nd c)
  then show ?case by (blast intro: shape_child_right)
qed

lemma shape_in_reach: "shape h p par t \<Longrightarrow> a \<in> set_tree t \<Longrightarrow> a \<in> reach h p"
proof (induction t arbitrary: p par)
  case Leaf
  then show ?case by simp
next
  case (Node l b r)
  from Node.prems(1) obtain nd where nd: "p = Some b" "lookup h b = Some nd"
    "shape h (leftChild nd) (Some b) l" "shape h (rightChild nd) (Some b) r"
    by (auto split: option.splits)
  have rb: "b \<in> reach h p" using nd(1) by (rule reach.reach_root)
  consider "a = b" | "a \<in> set_tree l" | "a \<in> set_tree r" using Node.prems(2) by auto
  then show ?case
  proof cases
    case 1
    then show ?thesis using rb by simp
  next
    case 2
    then obtain c where c: "leftChild nd = Some c" using nd(3) by (cases "leftChild nd") auto
    have "a \<in> reach h (Some c)" using Node.IH(1)[OF nd(3) 2] c by simp
    moreover have "c \<in> reach h p" using rb nd(2) c by (rule reach.reach_left)
    ultimately show ?thesis by (rule reach_trans)
  next
    case 3
    then obtain c where c: "rightChild nd = Some c" using nd(4) by (cases "rightChild nd") auto
    have "a \<in> reach h (Some c)" using Node.IH(2)[OF nd(4) 3] c by simp
    moreover have "c \<in> reach h p" using rb nd(2) c by (rule reach.reach_right)
    ultimately show ?thesis by (rule reach_trans)
  qed
qed

lemma reach_shape: "shape h p par t \<Longrightarrow> reach h p = set_tree t"
  by (blast intro: reach_in_shape shape_in_reach)

subsection \<open>Traversal\<close>

lemma traverse_loop_Nil: "traverse_loop h [] None acc = Some (Inr acc)"
  by (subst traverse_loop.simps) simp

lemma traverse_loop_pop:
  "lookup h a = Some nd \<Longrightarrow>
   traverse_loop h (a # rest) None acc = traverse_loop h rest (rightChild nd) (acc @ [a])"
  by (subst traverse_loop.simps) simp

lemma traverse_loop_push:
  "lookup h c = Some nd \<Longrightarrow>
   traverse_loop h stk (Some c) acc = traverse_loop h (c # stk) (leftChild nd) acc"
  by (subst traverse_loop.simps) simp

lemma traverse_loop_shape:
  "shape h c par t \<Longrightarrow> traverse_loop h stk c acc = traverse_loop h stk None (acc @ inorder t)"
proof (induction t arbitrary: c par stk acc)
  case Leaf
  then show ?case by simp
next
  case (Node l a r)
  from Node.prems obtain nd where nd: "c = Some a" "lookup h a = Some nd"
    "shape h (leftChild nd) (Some a) l" "shape h (rightChild nd) (Some a) r"
    by (auto split: option.splits)
  have "traverse_loop h stk c acc = traverse_loop h (a # stk) (leftChild nd) acc"
    using nd(1,2) by (simp add: traverse_loop_push)
  also have "\<dots> = traverse_loop h (a # stk) None (acc @ inorder l)"
    by (rule Node.IH(1)[OF nd(3)])
  also have "\<dots> = traverse_loop h stk (rightChild nd) ((acc @ inorder l) @ [a])"
    using nd(2) by (rule traverse_loop_pop)
  also have "\<dots> = traverse_loop h stk None (((acc @ inorder l) @ [a]) @ inorder r)"
    by (rule Node.IH(2)[OF nd(4)])
  finally show ?case by simp
qed

lemma node_traverse_shape:
  assumes "shape h (Some a) par t"
  shows "node_traverse h a = Some (Inr (inorder t))"
proof -
  from assms obtain l r nd where nd: "t = Node l a r" "lookup h a = Some nd"
    "shape h (leftChild nd) (Some a) l" "shape h (rightChild nd) (Some a) r"
    by (auto simp: shape_Some)
  have "node_traverse h a = traverse_loop h [a] (leftChild nd) []"
    using nd(2) by (simp add: node_traverse_def)
  also have "\<dots> = traverse_loop h [a] None ([] @ inorder l)"
    by (rule traverse_loop_shape[OF nd(3)])
  also have "\<dots> = traverse_loop h [] (rightChild nd) (([] @ inorder l) @ [a])"
    using nd(2) by (rule traverse_loop_pop)
  also have "\<dots> = traverse_loop h [] None ((([] @ inorder l) @ [a]) @ inorder r)"
    by (rule traverse_loop_shape[OF nd(4)])
  finally show ?thesis using nd(1) by (simp add: traverse_loop_Nil)
qed

lemma tree_traverse_shape:
  "shape (heap t) (root t) None lay \<Longrightarrow> tree_traverse t = Some (Inr (inorder lay))"
  by (cases "root t") (auto simp: tree_traverse_def node_traverse_shape)

subsection \<open>Minimum and maximum\<close>

lemma inorder_Nil_iff: "inorder t = [] \<longleftrightarrow> t = Leaf"
  by (cases t) auto

lemma node_max_shape:
  "shape h (Some c) par t \<Longrightarrow> node_max h c = Some (Inr (last (inorder t)))"
proof (induction t arbitrary: c par)
  case Leaf
  then show ?case by simp
next
  case (Node l a r)
  from Node.prems obtain nd where nd: "c = a" "lookup h a = Some nd"
    "shape h (rightChild nd) (Some a) r"
    by (auto split: option.splits)
  show ?case
  proof (cases "rightChild nd")
    case None
    then have "r = Leaf" using nd(3) by simp
    then show ?thesis using nd None by (subst node_max.simps) simp
  next
    case (Some d)
    then have "r \<noteq> Leaf" using nd(3) by auto
    moreover have "node_max h d = Some (Inr (last (inorder r)))"
      using Node.IH(2) nd(3) Some by simp
    ultimately show ?thesis using nd Some
      by (subst node_max.simps) (simp add: inorder_Nil_iff)
  qed
qed

lemma node_min_shape:
  "shape h (Some c) par t \<Longrightarrow> node_min h c = Some (Inr (hd (inorder t)))"
proof (induction t arbitrary: c par)
  case Leaf
  then show ?case by simp
next
  case (Node l a r)
  from Node.prems obtain nd where nd: "c = a" "lookup h a = Some nd"
    "shape h (leftChild nd) (Some a) l"
    by (auto split: option.splits)
  show ?case
  proof (cases "leftChild nd")
    case None
    then have "l = Leaf" using nd(3) by simp
    then show ?thesis using nd None by (subst node_min.simps) simp
  next
    case (Some d)
    then have "l \<noteq> Leaf" using nd(3) by auto
    moreover have "node_min h d = Some (Inr (hd (inorder l)))"
      using Node.IH(1) nd(3) Some by simp
    ultimately show ?thesis using nd Some
      by (subst node_min.simps) (simp add: inorder_Nil_iff)
  qed
qed

subsection \<open>Search\<close>

lemma ordered_Node:
  "ordered h (Node l b r) \<longleftrightarrow>
     ordered h l \<and> ordered h r \<and>
     (\<forall>x\<in>set_tree l. key_of h x < key_of h b) \<and>
     (\<forall>y\<in>set_tree r. key_of h b < key_of h y) \<and>
     (\<forall>x\<in>set_tree l. \<forall>y\<in>set_tree r. key_of h x < key_of h y)"
  by (auto simp: ordered_def sorted_wrt_append)

lemma ordered_Leaf [simp]: "ordered h Leaf"
  by (simp add: ordered_def)

lemma node_get_absent:
  "shape h (Some c) par t \<Longrightarrow> k \<notin> key_of h ` set_tree t \<Longrightarrow> node_get h c k = Some (Inr None)"
proof (induction t arbitrary: c par)
  case Leaf
  then show ?case by simp
next
  case (Node l a r)
  from Node.prems(1) obtain nd where nd: "c = a" "lookup h a = Some nd"
    "shape h (leftChild nd) (Some a) l" "shape h (rightChild nd) (Some a) r"
    by (auto split: option.splits)
  have ne: "k \<noteq> key nd" using Node.prems(2) lookup_key_of[OF nd(2)] by auto
  have L: "node_get h d k = Some (Inr None)" if "leftChild nd = Some d" for d
    using Node.IH(1)[of d "Some a"] nd(3) that Node.prems(2) by auto
  have R: "node_get h d k = Some (Inr None)" if "rightChild nd = Some d" for d
    using Node.IH(2)[of d "Some a"] nd(4) that Node.prems(2) by auto
  show ?case using nd(1,2) ne L R
    by (subst node_get.simps) (auto split: option.splits)
qed

lemma node_get_present:
  "shape h (Some c) par t \<Longrightarrow> ordered h t \<Longrightarrow> a \<in> set_tree t \<Longrightarrow>
   node_get h c (key_of h a) = Some (Inr (Some a))"
proof (induction t arbitrary: c par)
  case Leaf
  then show ?case by simp
next
  case (Node l b r)
  from Node.prems(1) obtain nd where nd: "c = b" "lookup h b = Some nd"
    "shape h (leftChild nd) (Some b) l" "shape h (rightChild nd) (Some b) r"
    by (auto split: option.splits)
  note kb = lookup_key_of[OF nd(2)]
  from Node.prems(2) have ord: "ordered h l" "ordered h r"
    "\<forall>x\<in>set_tree l. key_of h x < key_of h b" "\<forall>y\<in>set_tree r. key_of h b < key_of h y"
    by (auto simp: ordered_Node)
  consider "a = b" | "a \<in> set_tree l" | "a \<in> set_tree r" using Node.prems(3) by auto
  then show ?case
  proof cases
    case 1
    then show ?thesis using nd(1,2) kb by (subst node_get.simps) simp
  next
    case 2
    then obtain d where d: "leftChild nd = Some d" using nd(3) by (cases "leftChild nd") auto
    have "node_get h d (key_of h a) = Some (Inr (Some a))"
      using Node.IH(1)[of d "Some b"] nd(3) d ord(1) 2 by simp
    moreover have "key_of h a < key nd" using ord(3) 2 kb by auto
    ultimately show ?thesis using nd(1,2) d by (subst node_get.simps) simp
  next
    case 3
    then obtain d where d: "rightChild nd = Some d" using nd(4) by (cases "rightChild nd") auto
    have "node_get h d (key_of h a) = Some (Inr (Some a))"
      using Node.IH(2)[of d "Some b"] nd(4) d ord(2) 3 by simp
    moreover have "key nd < key_of h a" using ord(4) 3 kb by auto
    moreover from this have "\<not> key_of h a < key nd" by simp
    ultimately show ?thesis using nd(1,2) d by (subst node_get.simps) simp
  qed
qed

subsection \<open>Insertion\<close>

lemma node_insert_dup:
  "shape h (Some c) par t \<Longrightarrow> ordered h t \<Longrightarrow> a \<in> set_tree t \<Longrightarrow>
   node_insert h c (key_of h a) v = Some (Inl (DuplicateKey (key_of h a)), h)"
proof (induction t arbitrary: c par)
  case Leaf
  then show ?case by simp
next
  case (Node l b r)
  from Node.prems(1) obtain nd where nd: "c = b" "lookup h b = Some nd"
    "shape h (leftChild nd) (Some b) l" "shape h (rightChild nd) (Some b) r"
    by (auto split: option.splits)
  note kb = lookup_key_of[OF nd(2)]
  from Node.prems(2) have ord: "ordered h l" "ordered h r"
    "\<forall>x\<in>set_tree l. key_of h x < key_of h b" "\<forall>y\<in>set_tree r. key_of h b < key_of h y"
    by (auto simp: ordered_Node)
  consider "a = b" | "a \<in> set_tree l" | "a \<in> set_tree r" using Node.prems(3) by auto
  then show ?case
  proof cases
    case 1
    then show ?thesis using nd(1,2) kb by (subst node_insert.simps) simp
  next
    case 2
    then obtain d where d: "leftChild nd = Some d" using nd(3) by (cases "leftChild nd") auto
    have "node_insert h d (key_of h a) v = Some (Inl (DuplicateKey (key_of h a)), h)"
      using Node.IH(1)[of d "Some b"] nd(3) d ord(1) 2 by simp
    moreover have "key_of h a < key nd" using ord(3) 2 kb by auto
    ultimately show ?thesis using nd(1,2) d by (subst node_insert.simps) simp
  next
    case 3
    then obtain d where d: "rightChild nd = Some d" using nd(4) by (cases "rightChild nd") auto
    have "node_insert h d (key_of h a) v = Some (Inl (DuplicateKey (key_of h a)), h)"
      using Node.IH(2)[of d "Some b"] nd(4) d ord(2) 3 by simp
    moreover have "key nd < key_of h a" using ord(4) 3 kb by auto
    moreover from this have "\<not> key_of h a < key nd" by simp
    ultimately show ?thesis using nd(1,2) d by (subst node_insert.simps) simp
  qed
qed

lemma key_of_update:
  "lookup h a = Some nd \<Longrightarrow> key nd' = key nd \<Longrightarrow> key_of (h[a := nd']) b = key_of h b"
  by (cases "b = a") (auto simp: key_of_def lookup_def split: if_splits)

lemma val_of_update:
  "lookup h a = Some nd \<Longrightarrow> val nd' = val nd \<Longrightarrow> val_of (h[a := nd']) b = val_of h b"
  by (cases "b = a") (auto simp: val_of_def lookup_def split: if_splits)

lemma node_insert_leaf_left:
  assumes "lookup h a = Some nd" "leftChild nd = None" "k < key nd"
  shows "node_insert h a k v =
     Some (Inr (length h),
       (h @ [\<lparr>key = k, val = v, parent = Some a, leftChild = None, rightChild = None\<rparr>])
         [a := nd\<lparr>leftChild := Some (length h)\<rparr>])"
  using assms lookup_less[OF assms(1)]
  by (subst node_insert.simps)
     (simp add: new_Node_def set_leftChild_def and_then_def lookup_append)

lemma node_insert_leaf_right:
  assumes "lookup h a = Some nd" "rightChild nd = None" "key nd < k"
  shows "node_insert h a k v =
     Some (Inr (length h),
       (h @ [\<lparr>key = k, val = v, parent = Some a, leftChild = None, rightChild = None\<rparr>])
         [a := nd\<lparr>rightChild := Some (length h)\<rparr>])"
  using assms lookup_less[OF assms(1)]
  by (subst node_insert.simps)
     (auto simp add: new_Node_def set_rightChild_def and_then_def lookup_append)

lemma ins_post_leaf:
  assumes "lookup h a = Some nd" "key nd' = key nd" "val nd' = val nd" "a \<in> set_tree t"
  shows "ins_post h t k v
     ((h @ [\<lparr>key = k, val = v, parent = p, leftChild = None, rightChild = None\<rparr>])[a := nd'])"
proof -
  have a: "a < length h" using assms(1) by (rule lookup_less)
  have "h ! a = nd" using assms(1) by (rule lookup_nth)
  then show ?thesis using a assms(2-)
    by (auto simp: ins_post_def lookup_update lookup_append key_of_def val_of_def
        nth_list_update nth_append)
qed

lemma ins_post_mono: "ins_post h l k v h' \<Longrightarrow> set_tree l \<subseteq> set_tree t \<Longrightarrow> ins_post h t k v h'"
  by (auto simp: ins_post_def)

lemma node_insert_shape:
  assumes "shape h (Some c) par t" "distinct (inorder t)" "k \<notin> key_of h ` set_tree t"
  shows "\<exists>h'. node_insert h c k v = Some (Inr (length h), h') \<and>
     shape h' (Some c) par (ins_tree (key_of h) k (length h) t) \<and> ins_post h t k v h'"
  using assms
proof (induction t arbitrary: c par)
  case Leaf
  then show ?case by simp
next
  case (Node l a r)
  from Node.prems(1) obtain nd where nd: "c = a" "lookup h a = Some nd" "parent nd = par"
    "shape h (leftChild nd) (Some a) l" "shape h (rightChild nd) (Some a) r"
    by (auto split: option.splits)
  note ka = lookup_key_of[OF nd(2)]
  have a: "a < length h" using nd(2) by (rule lookup_less)
  have ne: "k \<noteq> key nd" using Node.prems(3) ka by auto
  have dis: "a \<notin> set_tree l" "a \<notin> set_tree r" "set_tree l \<inter> set_tree r = {}"
    "distinct (inorder l)" "distinct (inorder r)"
    using Node.prems(2) by auto
  have lt: "\<And>x. x \<in> set_tree l \<Longrightarrow> x < length h" using shape_less[OF nd(4)] .
  have rt: "\<And>x. x \<in> set_tree r \<Longrightarrow> x < length h" using shape_less[OF nd(5)] .
  let ?new = "\<lambda>p. \<lparr>key = k, val = v, parent = p, leftChild = None, rightChild = None\<rparr>"
  show ?case
  proof (cases "k < key nd")
    case True
    show ?thesis
    proof (cases "leftChild nd")
      case None
      then have l: "l = Leaf" using nd(4) by simp
      let ?h' = "(h @ [?new (Some a)])[a := nd\<lparr>leftChild := Some (length h)\<rparr>]"
      have 1: "node_insert h a k v = Some (Inr (length h), ?h')"
        using nd(2) None True by (rule node_insert_leaf_left)
      have la: "lookup ?h' a = Some (nd\<lparr>leftChild := Some (length h)\<rparr>)"
        using a by (simp add: lookup_update)
      have ln: "lookup ?h' (length h) = Some (?new (Some a))"
        using a by (simp add: lookup_update lookup_append)
      have "shape ?h' (rightChild nd) (Some a) r"
        using nd(5)
      proof (rule shape_frame)
        fix x assume "x \<in> set_tree r"
        then show "lookup ?h' x = lookup h x"
          using dis(2) rt[of x] by (auto simp: lookup_update lookup_append)
      qed
      then have 2: "shape ?h' (Some a) par (ins_tree (key_of h) k (length h) (Node l a r))"
        using la ln l True ka nd(3) by simp
      have 3: "ins_post h (Node l a r) k v ?h'"
        using nd(2) by (rule ins_post_leaf) simp_all
      show ?thesis using 1 2 3 nd(1) by blast
    next
      case (Some d)
      have "k \<notin> key_of h ` set_tree l" using Node.prems(3) by auto
      from Node.IH(1)[of d "Some a", OF _ dis(4) this] nd(4) Some
      obtain h' where h': "node_insert h d k v = Some (Inr (length h), h')"
        "shape h' (Some d) (Some a) (ins_tree (key_of h) k (length h) l)" "ins_post h l k v h'"
        by auto
      have 1: "node_insert h a k v = Some (Inr (length h), h')"
        using nd(2) Some True h'(1) by (subst node_insert.simps) simp
      have la: "lookup h' a = Some nd" using h'(3) a dis(1) nd(2) by (simp add: ins_post_def)
      have "shape h' (rightChild nd) (Some a) r"
        using nd(5)
      proof (rule shape_frame)
        fix x assume "x \<in> set_tree r"
        then show "lookup h' x = lookup h x"
          using dis(3) rt[of x] h'(3) by (auto simp: ins_post_def)
      qed
      then have 2: "shape h' (Some a) par (ins_tree (key_of h) k (length h) (Node l a r))"
        using la h'(2) Some True ka nd(3) by simp
      have 3: "ins_post h (Node l a r) k v h'"
        using h'(3) by (rule ins_post_mono) auto
      show ?thesis using 1 2 3 nd(1) by blast
    qed
  next
    case False
    then have gt: "key nd < k" using ne by simp
    have nlt: "\<not> k < key nd" using False .
    show ?thesis
    proof (cases "rightChild nd")
      case None
      then have r: "r = Leaf" using nd(5) by simp
      let ?h' = "(h @ [?new (Some a)])[a := nd\<lparr>rightChild := Some (length h)\<rparr>]"
      have 1: "node_insert h a k v = Some (Inr (length h), ?h')"
        using nd(2) None gt by (rule node_insert_leaf_right)
      have la: "lookup ?h' a = Some (nd\<lparr>rightChild := Some (length h)\<rparr>)"
        using a by (simp add: lookup_update)
      have ln: "lookup ?h' (length h) = Some (?new (Some a))"
        using a by (simp add: lookup_update lookup_append)
      have "shape ?h' (leftChild nd) (Some a) l"
        using nd(4)
      proof (rule shape_frame)
        fix x assume "x \<in> set_tree l"
        then show "lookup ?h' x = lookup h x"
          using dis(1) lt[of x] by (auto simp: lookup_update lookup_append)
      qed
      then have 2: "shape ?h' (Some a) par (ins_tree (key_of h) k (length h) (Node l a r))"
        using la ln r gt nlt ka nd(3) by simp
      have 3: "ins_post h (Node l a r) k v ?h'"
        using nd(2) by (rule ins_post_leaf) simp_all
      show ?thesis using 1 2 3 nd(1) by blast
    next
      case (Some d)
      have "k \<notin> key_of h ` set_tree r" using Node.prems(3) by auto
      from Node.IH(2)[of d "Some a", OF _ dis(5) this] nd(5) Some
      obtain h' where h': "node_insert h d k v = Some (Inr (length h), h')"
        "shape h' (Some d) (Some a) (ins_tree (key_of h) k (length h) r)" "ins_post h r k v h'"
        by auto
      have 1: "node_insert h a k v = Some (Inr (length h), h')"
        using nd(2) Some gt nlt h'(1) by (subst node_insert.simps) simp
      have la: "lookup h' a = Some nd" using h'(3) a dis(2) nd(2) by (simp add: ins_post_def)
      have "shape h' (leftChild nd) (Some a) l"
        using nd(4)
      proof (rule shape_frame)
        fix x assume "x \<in> set_tree l"
        then show "lookup h' x = lookup h x"
          using dis(3) lt[of x] h'(3) by (auto simp: ins_post_def)
      qed
      then have 2: "shape h' (Some a) par (ins_tree (key_of h) k (length h) (Node l a r))"
        using la h'(2) Some gt nlt ka nd(3) by simp
      have 3: "ins_post h (Node l a r) k v h'"
        using h'(3) by (rule ins_post_mono) auto
      show ?thesis using 1 2 3 nd(1) by blast
    qed
  qed
qed

lemma set_ins_tree:
  "k \<notin> kf ` set_tree t \<Longrightarrow> set_tree (ins_tree kf k n t) = insert n (set_tree t)"
  by (induction t) auto

lemma distinct_ins_tree:
  "distinct (inorder t) \<Longrightarrow> n \<notin> set_tree t \<Longrightarrow> k \<notin> kf ` set_tree t \<Longrightarrow>
   distinct (inorder (ins_tree kf k n t))"
  by (induction t) (auto simp: set_ins_tree image_Un)

lemma ins_tree_cong:
  "(\<And>a. a \<in> set_tree t \<Longrightarrow> kf' a = kf a) \<Longrightarrow> ins_tree kf' k n t = ins_tree kf k n t"
  by (induction t) auto

lemma sorted_ins_tree_same:
  "sorted_wrt (<) (map kf (inorder t)) \<Longrightarrow> k \<notin> kf ` set_tree t \<Longrightarrow> kf n = k \<Longrightarrow>
   sorted_wrt (<) (map kf (inorder (ins_tree kf k n t)))"
  by (induction t) (auto simp: sorted_wrt_append set_ins_tree image_Un)

lemma sorted_ins_tree:
  assumes "sorted_wrt (<) (map kf (inorder t))" "k \<notin> kf ` set_tree t" "kf' n = k"
    "\<And>a. a \<in> set_tree t \<Longrightarrow> kf' a = kf a"
  shows "sorted_wrt (<) (map kf' (inorder (ins_tree kf k n t)))"
proof -
  have e: "map kf' (inorder t) = map kf (inorder t)" using assms(4) by simp
  have 1: "sorted_wrt (<) (map kf' (inorder t))" by (subst e) (rule assms(1))
  have 2: "k \<notin> kf' ` set_tree t" using assms(2,4) by auto
  have "sorted_wrt (<) (map kf' (inorder (ins_tree kf' k n t)))"
    using 1 2 assms(3) by (rule sorted_ins_tree_same)
  then show ?thesis using ins_tree_cong[of t kf' kf k n] assms(4) by simp
qed

subsection \<open>Pointer updates\<close>

lemma and_then_Inr [simp]: "and_then (Inr x, h) f = f x h"
  by (simp add: and_then_def)

lemma and_then_Inl [simp]: "and_then (Inl e, h) f = (Inl e, h)"
  by (simp add: and_then_def)

lemma relinked_refl [simp]: "relinked h h"
  by (simp add: relinked_def)

lemma relinked_trans: "relinked h h1 \<Longrightarrow> relinked h1 h2 \<Longrightarrow> relinked h h2"
  by (simp add: relinked_def)


lemma map_option_ident: "map_option (\<lambda>nd. nd) x = x"
  by (cases x) auto

lemma replaceWith_result:
  assumes "lookup h this = Some t" "parent t = par"
    and "\<And>x. node = Some x \<Longrightarrow> x < length h"
    and "\<And>p. par = Some p \<Longrightarrow> p < length h"
  shows "\<exists>h'. replaceWith h this node = (Inr (), h') \<and> length h' = length h \<and>
     (\<forall>a. lookup h' a = map_option (replaced this par node a) (lookup h a))"
proof -
  obtain h1 where h1: "(case node of None \<Rightarrow> (Inr (), h) | Some x \<Rightarrow> set_parent h x par)
      = (Inr (), h1)" "length h1 = length h"
    "\<And>a. lookup h1 a =
       map_option (\<lambda>nd. if node = Some a then nd\<lparr>parent := par\<rparr> else nd) (lookup h a)"
    using assms(3)
    by (cases node) (auto simp: set_parent_def lookup_def map_option_case)
  have rw: "replaceWith h this node =
      (case par of
         None \<Rightarrow> (Inr (), h1)
       | Some p \<Rightarrow>
           (case lookup h1 p of
              None \<Rightarrow> (Inl TypeError, h1)
            | Some pn \<Rightarrow>
                if leftChild pn = Some this then set_leftChild h1 p node
                else set_rightChild h1 p node))"
    using assms(1,2) h1(1) by (simp add: replaceWith_def)
  show ?thesis
  proof (cases par)
    case None
    show ?thesis using None h1(2,3)
      by (auto simp add: rw replaced_def Let_def)
  next
    case (Some p)
    then have p: "p < length h" by (rule assms(4))
    then obtain pn where pn: "lookup h1 p = Some pn" using h1(2) by (auto simp: lookup_def)
    let ?h = "if leftChild pn = Some this then h1[p := pn\<lparr>leftChild := node\<rparr>]
              else h1[p := pn\<lparr>rightChild := node\<rparr>]"
    have "replaceWith h this node = (Inr (), ?h)"
      using Some pn by (simp add: rw set_leftChild_def set_rightChild_def)
    moreover have "length ?h = length h" using h1(2) by simp
    moreover have "lookup ?h a = map_option (replaced this par node a) (lookup h a)" for a
      using Some pn h1(3)[of a] h1(3)[of p] p h1(2)
      by (cases "a = p") (auto simp: lookup_update replaced_def Let_def)
    ultimately show ?thesis by blast
  qed
qed

lemma adoptLeftChild_result:
  assumes "lookup h node = Some nd" "leftChild nd = Some c" "c < length h" "this < length h"
  shows "\<exists>h'. adoptLeftChild h this node = (Inr (), h') \<and> length h' = length h \<and>
     (\<forall>a. lookup h' a = map_option (adopted_left this c a) (lookup h a))"
proof -
  obtain cn where cn: "lookup h c = Some cn" using assms(3) by (auto simp: lookup_def)
  let ?h1 = "h[c := cn\<lparr>parent := Some this\<rparr>]"
  obtain nd1 where nd1: "lookup ?h1 node = Some nd1" "leftChild nd1 = Some c"
    using assms(1,2,3) cn by (cases "node = c") (auto simp: lookup_update)
  obtain tn where tn: "lookup ?h1 this = Some tn" using assms(4) by (auto simp: lookup_def)
  let ?h = "?h1[this := tn\<lparr>leftChild := Some c\<rparr>]"
  have "adoptLeftChild h this node = (Inr (), ?h)"
    using assms(1,2) cn nd1 tn by (simp add: adoptLeftChild_def set_parent_def set_leftChild_def)
  moreover have "lookup ?h a = map_option (adopted_left this c a) (lookup h a)" for a
    using cn tn assms(3,4)
    by (cases "a = this"; cases "a = c") (auto simp: lookup_update adopted_left_def Let_def map_option_ident split: if_splits)
  ultimately show ?thesis by auto
qed

lemma adoptRightChild_result:
  assumes "lookup h node = Some nd" "rightChild nd = Some c" "c < length h" "this < length h"
  shows "\<exists>h'. adoptRightChild h this node = (Inr (), h') \<and> length h' = length h \<and>
     (\<forall>a. lookup h' a = map_option (adopted_right this c a) (lookup h a))"
proof -
  obtain cn where cn: "lookup h c = Some cn" using assms(3) by (auto simp: lookup_def)
  let ?h1 = "h[c := cn\<lparr>parent := Some this\<rparr>]"
  obtain nd1 where nd1: "lookup ?h1 node = Some nd1" "rightChild nd1 = Some c"
    using assms(1,2,3) cn by (cases "node = c") (auto simp: lookup_update)
  obtain tn where tn: "lookup ?h1 this = Some tn" using assms(4) by (auto simp: lookup_def)
  let ?h = "?h1[this := tn\<lparr>rightChild := Some c\<rparr>]"
  have "adoptRightChild h this node = (Inr (), ?h)"
    using assms(1,2) cn nd1 tn by (simp add: adoptRightChild_def set_parent_def set_rightChild_def)
  moreover have "lookup ?h a = map_option (adopted_right this c a) (lookup h a)" for a
    using cn tn assms(3,4)
    by (cases "a = this"; cases "a = c") (auto simp: lookup_update adopted_right_def Let_def map_option_ident split: if_splits)
  ultimately show ?thesis by auto
qed

text \<open>A store whose cells are those of another one up to their links.\<close>

lemma relinked_pointwise:
  assumes "length h' = length h"
    and "\<And>a. lookup h' a = map_option (f a) (lookup h a)"
    and "\<And>a nd. key (f a nd) = key nd \<and> val (f a nd) = val nd"
  shows "relinked h h'"
proof -
  have "key_of h' a = key_of h a \<and> val_of h' a = val_of h a" if "a < length h" for a
  proof -
    from that obtain nd where nd: "lookup h a = Some nd" by (auto simp: lookup_def)
    then have "lookup h' a = Some (f a nd)" using assms(2)[of a] by simp
    then show ?thesis using nd assms(3)[of a nd]
      by (simp add: lookup_key_of lookup_val_of)
  qed
  then show ?thesis using assms(1) by (simp add: relinked_def)
qed

subsection \<open>Layouts after removal\<close>

lemma inorder_del_max: "inorder (del_max t) = butlast (inorder t)"
  by (induction t) (auto simp: butlast_append inorder_Nil_iff)

lemma inorder_del_min: "inorder (del_min t) = tl (inorder t)"
  by (induction t) (auto simp: inorder_Nil_iff)

lemma set_del_max: "set_tree (del_max t) \<subseteq> set_tree t"
  by (induction t) auto

lemma set_del_min: "set_tree (del_min t) \<subseteq> set_tree t"
  by (induction t) auto

lemma last_in_tree: "t \<noteq> Leaf \<Longrightarrow> last (inorder t) \<in> set_tree t"
  by (metis inorder_Nil_iff last_in_set set_inorder)

lemma hd_in_tree: "t \<noteq> Leaf \<Longrightarrow> hd (inorder t) \<in> set_tree t"
  by (metis inorder_Nil_iff hd_in_set set_inorder)

lemma last_notin_del_max:
  "distinct (inorder t) \<Longrightarrow> t \<noteq> Leaf \<Longrightarrow> last (inorder t) \<notin> set_tree (del_max t)"
proof -
  assume d: "distinct (inorder t)" and "t \<noteq> Leaf"
  then have ne: "inorder t \<noteq> []" by (simp add: inorder_Nil_iff)
  have "distinct (butlast (inorder t) @ [last (inorder t)])" using d ne by simp
  then have "last (inorder t) \<notin> set (butlast (inorder t))" by simp
  then show ?thesis by (metis inorder_del_max set_inorder)
qed

lemma hd_notin_del_min:
  "distinct (inorder t) \<Longrightarrow> t \<noteq> Leaf \<Longrightarrow> hd (inorder t) \<notin> set_tree (del_min t)"
proof -
  assume d: "distinct (inorder t)" and "t \<noteq> Leaf"
  then have ne: "inorder t \<noteq> []" by (simp add: inorder_Nil_iff)
  have "distinct (hd (inorder t) # tl (inorder t))" using d ne by simp
  then have "hd (inorder t) \<notin> set (tl (inorder t))" by simp
  then show ?thesis by (metis inorder_del_min set_inorder)
qed

lemma distinct_del_max: "distinct (inorder t) \<Longrightarrow> distinct (inorder (del_max t))"
  by (simp add: inorder_del_max distinct_butlast)

lemma distinct_del_min: "distinct (inorder t) \<Longrightarrow> distinct (inorder (del_min t))"
  by (simp add: inorder_del_min distinct_tl)

lemma shape_NodeI:
  "lookup h a = Some nd \<Longrightarrow> parent nd = par \<Longrightarrow> shape h (leftChild nd) (Some a) l \<Longrightarrow>
   shape h (rightChild nd) (Some a) r \<Longrightarrow> shape h (Some a) par (Node l a r)"
  by simp

lemma shape_NodeE:
  assumes "shape h p par (Node l a r)"
  obtains nd where "p = Some a" "lookup h a = Some nd" "parent nd = par"
    "shape h (leftChild nd) (Some a) l" "shape h (rightChild nd) (Some a) r"
  using assms by (auto split: option.splits)

lemma shape_root_in: "shape h (Some x) par t \<Longrightarrow> x \<in> set_tree t"
  by (auto simp: shape_Some)

lemma shape_reparent:
  assumes "shape h p q t" "distinct (inorder t)"
    and "\<And>c cn. p = Some c \<Longrightarrow> lookup h c = Some cn \<Longrightarrow> lookup h' c = Some (cn\<lparr>parent := q'\<rparr>)"
    and "\<And>x. x \<in> set_tree t \<Longrightarrow> p \<noteq> Some x \<Longrightarrow> lookup h' x = lookup h x"
  shows "shape h' p q' t"
proof (cases t)
  case Leaf
  then show ?thesis using assms(1) by simp
next
  case (Node l c r)
  from assms(1)[unfolded Node] obtain cn where cn: "p = Some c" "lookup h c = Some cn"
    "shape h (leftChild cn) (Some c) l" "shape h (rightChild cn) (Some c) r"
    by (rule shape_NodeE)
  have dis: "c \<notin> set_tree l" "c \<notin> set_tree r" using assms(2) Node by auto
  have "shape h' (leftChild cn) (Some c) l"
    using cn(3) by (rule shape_frame) (use assms(4) Node dis cn(1) in auto)
  moreover have "shape h' (rightChild cn) (Some c) r"
    using cn(4) by (rule shape_frame) (use assms(4) Node dis cn(1) in auto)
  ultimately show ?thesis using assms(3)[OF cn(1,2)] cn(1) Node by simp
qed

lemma replaced_key_val: "key (replaced this par node a nd) = key nd \<and> val (replaced this par node a nd) = val nd"
  by (simp add: replaced_def Let_def)

lemma adopted_left_key_val: "key (adopted_left this c a nd) = key nd \<and> val (adopted_left this c a nd) = val nd"
  by (simp add: adopted_left_def Let_def)

lemma adopted_right_key_val: "key (adopted_right this c a nd) = key nd \<and> val (adopted_right this c a nd) = val nd"
  by (simp add: adopted_right_def Let_def)

lemma replaced_other:
  "node \<noteq> Some a \<Longrightarrow> par \<noteq> Some a \<Longrightarrow> replaced this par node a nd = nd"
  by (simp add: replaced_def)

lemma replaced_node:
  "par \<noteq> Some a \<Longrightarrow> replaced this par (Some a) a nd = nd\<lparr>parent := par\<rparr>"
  by (simp add: replaced_def)

lemma replaced_parent:
  "node \<noteq> Some a \<Longrightarrow> replaced this (Some a) node a nd =
     (if leftChild nd = Some this then nd\<lparr>leftChild := node\<rparr> else nd\<lparr>rightChild := node\<rparr>)"
  by (simp add: replaced_def)

text \<open>Taking the maximum out of a subtree whose root is not the maximum.\<close>

lemma replaceWith_max:
  assumes "shape h (Some c) q (Node sl c sr)" "distinct (inorder (Node sl c sr))" "sr \<noteq> Leaf"
    and "lookup h (last (inorder sr)) = Some mn"
  shows "\<exists>h1. replaceWith h (last (inorder sr)) (leftChild mn) = (Inr (), h1) \<and>
     shape h1 (Some c) q (Node sl c (del_max sr)) \<and>
     (\<forall>x. x \<notin> set_tree sr \<longrightarrow> x \<noteq> c \<longrightarrow> lookup h1 x = lookup h x) \<and>
     lookup h1 (last (inorder sr)) = Some mn \<and> relinked h h1"
  using assms
proof (induction sr arbitrary: c q sl)
  case Leaf
  then show ?case by simp
next
  case (Node srl e srr)
  from Node.prems(1) obtain cn where cn: "lookup h c = Some cn" "parent cn = q"
    "shape h (leftChild cn) (Some c) sl" "shape h (rightChild cn) (Some c) (Node srl e srr)"
    by (rule shape_NodeE)
  from cn(4) obtain en where en: "rightChild cn = Some e" "lookup h e = Some en"
    "parent en = Some c" "shape h (leftChild en) (Some e) srl" "shape h (rightChild en) (Some e) srr"
    by (rule shape_NodeE)
  have dis: "c \<notin> set_tree sl" "c \<noteq> e" "c \<notin> set_tree srl" "c \<notin> set_tree srr"
    "e \<notin> set_tree sl" "e \<notin> set_tree srl" "e \<notin> set_tree srr"
    "set_tree sl \<inter> set_tree srl = {}" "set_tree sl \<inter> set_tree srr = {}"
    "set_tree srl \<inter> set_tree srr = {}"
    "distinct (inorder sl)" "distinct (inorder srl)" "distinct (inorder srr)"
    using Node.prems(2) by auto
  show ?case
  proof (cases "srr = Leaf")
    case True
    then have m: "last (inorder (Node srl e srr)) = e" by simp
    then have mn: "mn = en" using Node.prems(4) en(2) by simp
    have lc: "leftChild cn \<noteq> Some e"
      using shape_root_in[of h e "Some c" sl] cn(3) dis(5) by auto
    have xl: "x \<in> set_tree srl" if "leftChild en = Some x" for x
      using shape_root_in[of h x "Some e" srl] en(4) that by simp
    have "\<exists>h'. replaceWith h e (leftChild en) = (Inr (), h') \<and> length h' = length h \<and>
       (\<forall>a. lookup h' a = map_option (replaced e (Some c) (leftChild en) a) (lookup h a))"
      using en(2,3)
    proof (rule replaceWith_result)
      fix x assume "leftChild en = Some x"
      then show "x < length h" using xl shape_less[OF en(4)] by blast
    next
      fix p assume "Some c = Some p"
      then show "p < length h" using lookup_less[OF cn(1)] by simp
    qed
    then obtain h1 where h1: "replaceWith h e (leftChild en) = (Inr (), h1)"
      "length h1 = length h"
      "\<And>a. lookup h1 a = map_option (replaced e (Some c) (leftChild en) a) (lookup h a)"
      by blast
    have nc: "leftChild en \<noteq> Some c" using xl dis(3) by auto
    have 1: "lookup h1 c = Some (cn\<lparr>rightChild := leftChild en\<rparr>)"
      using h1(3)[of c] cn(1) nc lc by (simp add: replaced_parent)
    have other: "lookup h1 x = lookup h x" if "leftChild en \<noteq> Some x" "x \<noteq> c" for x
      using h1(3)[of x] that by (cases "lookup h x") (simp_all add: replaced_other)
    have 2: "shape h1 (leftChild cn) (Some c) sl"
      using cn(3) by (rule shape_frame) (use other xl dis in blast)
    have 3: "shape h1 (leftChild en) (Some c) srl"
      using en(4) dis(12)
    proof (rule shape_reparent)
      fix x xn assume "leftChild en = Some x" "lookup h x = Some xn"
      then show "lookup h1 x = Some (xn\<lparr>parent := Some c\<rparr>)"
        using h1(3)[of x] nc by (simp add: replaced_node)
    next
      fix x assume "x \<in> set_tree srl" "leftChild en \<noteq> Some x"
      then show "lookup h1 x = lookup h x" using other dis(3) by blast
    qed
    have 4: "shape h1 (Some c) q (Node sl c (del_max (Node srl e srr)))"
      using 1 2 3 cn(2) True by simp
    have 5: "\<forall>x. x \<notin> set_tree (Node srl e srr) \<longrightarrow> x \<noteq> c \<longrightarrow> lookup h1 x = lookup h x"
      using other xl by auto
    have 6: "lookup h1 e = Some en"
      using other[of e] xl dis(2,6) en(2) by auto
    have 7: "relinked h h1"
      using h1(2,3) by (rule relinked_pointwise) (rule replaced_key_val)
    show ?thesis using h1(1) 4 5 6 7 m mn by auto
  next
    case False
    then have m: "last (inorder (Node srl e srr)) = last (inorder srr)"
      by (simp add: inorder_Nil_iff)
    have "shape h (Some e) (Some c) (Node srl e srr)" using cn(4) en(1) by simp
    moreover have "distinct (inorder (Node srl e srr))" using Node.prems(2) by simp
    moreover have "lookup h (last (inorder srr)) = Some mn" using Node.prems(4) m by simp
    ultimately obtain h1 where h1:
      "replaceWith h (last (inorder srr)) (leftChild mn) = (Inr (), h1)"
      "shape h1 (Some e) (Some c) (Node srl e (del_max srr))"
      "\<forall>x. x \<notin> set_tree srr \<longrightarrow> x \<noteq> e \<longrightarrow> lookup h1 x = lookup h x"
      "lookup h1 (last (inorder srr)) = Some mn" "relinked h h1"
      using Node.IH(2)[of e "Some c" srl] False by blast
    have 1: "lookup h1 c = Some cn" using h1(3) dis(2,4) cn(1) by simp
    have 2: "shape h1 (leftChild cn) (Some c) sl"
      using cn(3) by (rule shape_frame) (use h1(3) dis in blast)
    have 4: "shape h1 (Some c) q (Node sl c (del_max (Node srl e srr)))"
      using 1 2 h1(2) cn(2) en(1) False by simp
    show ?thesis using h1(1,3,4,5) 4 m by auto
  qed
qed

text \<open>Taking the minimum out of a subtree whose root is not the minimum.\<close>

lemma replaceWith_min:
  assumes "shape h (Some c) q (Node sl c sr)" "distinct (inorder (Node sl c sr))" "sl \<noteq> Leaf"
    and "lookup h (hd (inorder sl)) = Some mn"
  shows "\<exists>h1. replaceWith h (hd (inorder sl)) (rightChild mn) = (Inr (), h1) \<and>
     shape h1 (Some c) q (Node (del_min sl) c sr) \<and>
     (\<forall>x. x \<notin> set_tree sl \<longrightarrow> x \<noteq> c \<longrightarrow> lookup h1 x = lookup h x) \<and>
     lookup h1 (hd (inorder sl)) = Some mn \<and> relinked h h1"
  using assms
proof (induction sl arbitrary: c q sr)
  case Leaf
  then show ?case by simp
next
  case (Node sll e slr)
  from Node.prems(1) obtain cn where cn: "lookup h c = Some cn" "parent cn = q"
    "shape h (leftChild cn) (Some c) (Node sll e slr)" "shape h (rightChild cn) (Some c) sr"
    by (rule shape_NodeE)
  from cn(3) obtain en where en: "leftChild cn = Some e" "lookup h e = Some en"
    "parent en = Some c" "shape h (leftChild en) (Some e) sll" "shape h (rightChild en) (Some e) slr"
    by (rule shape_NodeE)
  have dis: "c \<notin> set_tree sr" "c \<noteq> e" "c \<notin> set_tree sll" "c \<notin> set_tree slr"
    "e \<notin> set_tree sr" "e \<notin> set_tree sll" "e \<notin> set_tree slr"
    "set_tree sr \<inter> set_tree sll = {}" "set_tree sr \<inter> set_tree slr = {}"
    "set_tree sll \<inter> set_tree slr = {}"
    "distinct (inorder sr)" "distinct (inorder sll)" "distinct (inorder slr)"
    using Node.prems(2) by (auto simp: disjoint_iff)
  show ?case
  proof (cases "sll = Leaf")
    case True
    then have m: "hd (inorder (Node sll e slr)) = e" by simp
    then have mn: "mn = en" using Node.prems(4) en(2) by simp
    have xr: "x \<in> set_tree slr" if "rightChild en = Some x" for x
      using shape_root_in[of h x "Some e" slr] en(5) that by simp
    have "\<exists>h'. replaceWith h e (rightChild en) = (Inr (), h') \<and> length h' = length h \<and>
       (\<forall>a. lookup h' a = map_option (replaced e (Some c) (rightChild en) a) (lookup h a))"
      using en(2,3)
    proof (rule replaceWith_result)
      fix x assume "rightChild en = Some x"
      then show "x < length h" using xr shape_less[OF en(5)] by blast
    next
      fix p assume "Some c = Some p"
      then show "p < length h" using lookup_less[OF cn(1)] by simp
    qed
    then obtain h1 where h1: "replaceWith h e (rightChild en) = (Inr (), h1)"
      "length h1 = length h"
      "\<And>a. lookup h1 a = map_option (replaced e (Some c) (rightChild en) a) (lookup h a)"
      by blast
    have nc: "rightChild en \<noteq> Some c" using xr dis(4) by auto
    have 1: "lookup h1 c = Some (cn\<lparr>leftChild := rightChild en\<rparr>)"
      using h1(3)[of c] cn(1) nc en(1) by (simp add: replaced_parent)
    have other: "lookup h1 x = lookup h x" if "rightChild en \<noteq> Some x" "x \<noteq> c" for x
      using h1(3)[of x] that by (cases "lookup h x") (simp_all add: replaced_other)
    have 2: "shape h1 (rightChild cn) (Some c) sr"
      using cn(4) by (rule shape_frame) (use other xr dis in blast)
    have 3: "shape h1 (rightChild en) (Some c) slr"
      using en(5) dis(13)
    proof (rule shape_reparent)
      fix x xn assume "rightChild en = Some x" "lookup h x = Some xn"
      then show "lookup h1 x = Some (xn\<lparr>parent := Some c\<rparr>)"
        using h1(3)[of x] nc by (simp add: replaced_node)
    next
      fix x assume "x \<in> set_tree slr" "rightChild en \<noteq> Some x"
      then show "lookup h1 x = lookup h x" using other dis(4) by blast
    qed
    have 4: "shape h1 (Some c) q (Node (del_min (Node sll e slr)) c sr)"
      using 1 2 3 cn(2) True by simp
    have 5: "\<forall>x. x \<notin> set_tree (Node sll e slr) \<longrightarrow> x \<noteq> c \<longrightarrow> lookup h1 x = lookup h x"
      using other xr by auto
    have 6: "lookup h1 e = Some en"
      using other[of e] xr dis(2,7) en(2) by auto
    have 7: "relinked h h1"
      using h1(2,3) by (rule relinked_pointwise) (rule replaced_key_val)
    show ?thesis using h1(1) 4 5 6 7 m mn by auto
  next
    case False
    then have m: "hd (inorder (Node sll e slr)) = hd (inorder sll)"
      by (simp add: inorder_Nil_iff)
    have "shape h (Some e) (Some c) (Node sll e slr)" using cn(3) en(1) by simp
    moreover have "distinct (inorder (Node sll e slr))"
      using dis(6,7,10,12,13) by simp
    moreover have "lookup h (hd (inorder sll)) = Some mn" using Node.prems(4) m by simp
    ultimately obtain h1 where h1:
      "replaceWith h (hd (inorder sll)) (rightChild mn) = (Inr (), h1)"
      "shape h1 (Some e) (Some c) (Node (del_min sll) e slr)"
      "\<forall>x. x \<notin> set_tree sll \<longrightarrow> x \<noteq> e \<longrightarrow> lookup h1 x = lookup h x"
      "lookup h1 (hd (inorder sll)) = Some mn" "relinked h h1"
      using Node.IH(1)[of e "Some c" slr] False by blast
    have 1: "lookup h1 c = Some cn" using h1(3) dis(2,3) cn(1) by simp
    have 2: "shape h1 (rightChild cn) (Some c) sr"
      using cn(4) by (rule shape_frame) (use h1(3) dis in blast)
    have 4: "shape h1 (Some c) q (Node (del_min (Node sll e slr)) c sr)"
      using 1 2 h1(2) cn(2) en(1) False by simp
    show ?thesis using h1(1,3,4,5) 4 m by auto
  qed
qed

subsection \<open>The last step of a removal\<close>

lemma remove_finish_shape:
  assumes "lookup h n = Some nn" "parent nn = par" "shape h ch q s" "distinct (inorder s)"
    and "n \<notin> set_tree s"
    and "\<And>p. par = Some p \<Longrightarrow> p \<notin> set_tree s \<and> p \<noteq> n \<and> p < length h"
  shows "\<exists>h'. remove_finish h n ch = (Inr ch, h') \<and> shape h' ch par s \<and>
     spliced h n par (set_tree s) ch h'"
proof -
  have xs: "x \<in> set_tree s" if "ch = Some x" for x
    using shape_root_in[of h x q s] assms(3) that by simp
  have "\<exists>h'. replaceWith h n ch = (Inr (), h') \<and> length h' = length h \<and>
     (\<forall>a. lookup h' a = map_option (replaced n par ch a) (lookup h a))"
    using assms(1,2)
  proof (rule replaceWith_result)
    fix x assume "ch = Some x"
    then show "x < length h" using xs shape_less[OF assms(3)] by blast
  next
    fix p assume "par = Some p"
    then show "p < length h" using assms(6) by simp
  qed
  then obtain h' where h': "replaceWith h n ch = (Inr (), h')" "length h' = length h"
    "\<And>a. lookup h' a = map_option (replaced n par ch a) (lookup h a)"
    by blast
  have 1: "remove_finish h n ch = (Inr ch, h')"
    using h'(1) by (simp add: remove_finish_def)
  have np: "par \<noteq> Some x" if "x \<in> set_tree s" for x using assms(6) that by auto
  have other: "lookup h' x = lookup h x" if "ch \<noteq> Some x" "par \<noteq> Some x" for x
    using h'(3)[of x] that by (cases "lookup h x") (simp_all add: replaced_other)
  have 2: "shape h' ch par s"
    using assms(3,4)
  proof (rule shape_reparent)
    fix x xn assume "ch = Some x" "lookup h x = Some xn"
    then show "lookup h' x = Some (xn\<lparr>parent := par\<rparr>)"
      using h'(3)[of x] np[OF xs] by (simp add: replaced_node)
  next
    fix x assume "x \<in> set_tree s" "ch \<noteq> Some x"
    then show "lookup h' x = lookup h x" using other np by blast
  qed
  have 3: "relinked h h'"
    using h'(2,3) by (rule relinked_pointwise) (rule replaced_key_val)
  have 4: "lookup h' n = lookup h n"
    using other[of n] xs assms(5,6) by auto
  have 5: "lookup h' p = Some (if leftChild pn = Some n then pn\<lparr>leftChild := ch\<rparr>
                            else pn\<lparr>rightChild := ch\<rparr>)"
    if "par = Some p" "lookup h p = Some pn" for p pn
  proof -
    have "ch \<noteq> Some p" using xs assms(6)[OF that(1)] by auto
    then show ?thesis using h'(3)[of p] that by (simp add: replaced_parent)
  qed
  have 6: "\<forall>a. a \<notin> set_tree s \<longrightarrow> par \<noteq> Some a \<longrightarrow> lookup h' a = lookup h a"
    using other xs by auto
  show ?thesis using 1 2 3 4 5 6 unfolding spliced_def by blast
qed

lemma spliced_after:
  assumes "spliced h1 n par S1 rp h'" "relinked h h1" "S1 \<subseteq> S"
    and "\<And>a. a \<notin> S \<or> a = n \<Longrightarrow> lookup h1 a = lookup h a"
    and "\<And>p. par = Some p \<Longrightarrow> p \<notin> S"
  shows "spliced h n par S rp h'"
proof -
  have "lookup h' a = lookup h a" if "a \<notin> S" "par \<noteq> Some a" for a
    using assms(1,3,4) that unfolding spliced_def by (metis subsetD)
  moreover have "lookup h' p = Some (if leftChild pn = Some n then pn\<lparr>leftChild := rp\<rparr>
                            else pn\<lparr>rightChild := rp\<rparr>)"
    if "par = Some p" "lookup h p = Some pn" for p pn
  proof -
    have "lookup h1 p = Some pn" using assms(4)[of p] assms(5)[OF that(1)] that(2) by simp
    then show ?thesis using assms(1) that(1) unfolding spliced_def by blast
  qed
  moreover have "lookup h' n = lookup h n" using assms(1,4) unfolding spliced_def by simp
  moreover have "relinked h h'" using assms(1,2) relinked_trans unfolding spliced_def by blast
  ultimately show ?thesis unfolding spliced_def by blast
qed

lemma adopted_left_this: "this \<noteq> c \<Longrightarrow> adopted_left this c this nd = nd\<lparr>leftChild := Some c\<rparr>"
  by (simp add: adopted_left_def)

lemma adopted_left_child: "this \<noteq> c \<Longrightarrow> adopted_left this c c nd = nd\<lparr>parent := Some this\<rparr>"
  by (simp add: adopted_left_def)

lemma adopted_left_other: "a \<noteq> this \<Longrightarrow> a \<noteq> c \<Longrightarrow> adopted_left this c a nd = nd"
  by (simp add: adopted_left_def)

lemma adopted_right_this: "this \<noteq> c \<Longrightarrow> adopted_right this c this nd = nd\<lparr>rightChild := Some c\<rparr>"
  by (simp add: adopted_right_def)

lemma adopted_right_child: "this \<noteq> c \<Longrightarrow> adopted_right this c c nd = nd\<lparr>parent := Some this\<rparr>"
  by (simp add: adopted_right_def)

lemma adopted_right_other: "a \<noteq> this \<Longrightarrow> a \<noteq> c \<Longrightarrow> adopted_right this c a nd = nd"
  by (simp add: adopted_right_def)

lemma pointwise_other:
  "(\<And>a. lookup h' a = map_option (f a) (lookup h a)) \<Longrightarrow> (\<And>nd. f x nd = nd) \<Longrightarrow>
   lookup h' x = lookup h x"
  by (cases "lookup h x") simp_all

lemma relinked_length: "relinked h h' \<Longrightarrow> length h' = length h"
  by (simp add: relinked_def)

subsection \<open>Removal of a node with two children\<close>

lemma remove_with_predecessor_direct:
  assumes sh: "shape h (Some n) par (Node (Node ll c Leaf) n r)" and r: "r \<noteq> Leaf"
    and di: "distinct (inorder (Node (Node ll c Leaf) n r))"
    and pa: "\<And>p. par = Some p \<Longrightarrow> p \<notin> set_tree (Node (Node ll c Leaf) n r) \<and> p < length h"
  shows "\<exists>h'. remove_with_predecessor h n c c = (Inr (Some c), h') \<and>
     shape h' (Some c) par (Node ll c r) \<and>
     spliced h n par (set_tree (Node (Node ll c Leaf) n r)) (Some c) h'"
proof -
  from sh obtain nn where nn: "lookup h n = Some nn" "parent nn = par"
    "shape h (leftChild nn) (Some n) (Node ll c Leaf)" "shape h (rightChild nn) (Some n) r"
    by (rule shape_NodeE)
  from nn(3) obtain cn where cn: "leftChild nn = Some c" "lookup h c = Some cn"
    "parent cn = Some n" "shape h (leftChild cn) (Some c) ll" "shape h (rightChild cn) (Some c) Leaf"
    by (rule shape_NodeE)
  obtain d where d: "rightChild nn = Some d" using nn(4) r by (cases "rightChild nn") auto
  have dr: "d \<in> set_tree r" using nn(4) d shape_root_in by metis
  have dis: "c \<noteq> n" "c \<noteq> d" "n \<noteq> d" "c \<notin> set_tree ll" "c \<notin> set_tree r" "n \<notin> set_tree ll"
    "n \<notin> set_tree r" "d \<notin> set_tree ll" "set_tree ll \<inter> set_tree r = {}"
    "distinct (inorder ll)" "distinct (inorder r)"
    using di dr by (auto simp: disjoint_iff)
  have "d < length h" "c < length h"
    using shape_less[OF nn(4) dr] lookup_less[OF cn(2)] by auto
  with adoptRightChild_result[OF nn(1) d] obtain h2 where h2:
    "adoptRightChild h c n = (Inr (), h2)" "length h2 = length h"
    "\<And>a. lookup h2 a = map_option (adopted_right c d a) (lookup h a)"
    by blast
  have other: "lookup h2 x = lookup h x" if "x \<noteq> c" "x \<noteq> d" for x
    using h2(3) by (rule pointwise_other) (simp add: adopted_right_other that)
  have 1: "lookup h2 c = Some (cn\<lparr>rightChild := Some d\<rparr>)"
    using h2(3)[of c] cn(2) dis(2) by (simp add: adopted_right_this)
  have 2: "shape h2 (leftChild cn) (Some c) ll"
    using cn(4)
  proof (rule shape_frame)
    fix x assume "x \<in> set_tree ll"
    then have "x \<noteq> c" "x \<noteq> d" using dis by auto
    then show "lookup h2 x = lookup h x" by (rule other)
  qed
  have 3: "shape h2 (Some d) (Some c) r"
    using nn(4)[unfolded d] dis(11)
  proof (rule shape_reparent)
    fix x xn assume "Some d = Some x" "lookup h x = Some xn"
    then show "lookup h2 x = Some (xn\<lparr>parent := Some c\<rparr>)"
      using h2(3)[of d] dis(2) by (simp add: adopted_right_child)
  next
    fix x assume "x \<in> set_tree r" "Some d \<noteq> Some x"
    then show "lookup h2 x = lookup h x" using other[of x] dis(5) by auto
  qed
  have 4: "shape h2 (Some c) (Some n) (Node ll c r)"
    using 1 2 3 cn(3) by simp
  have 5: "lookup h2 n = Some nn" using other[of n] nn(1) dis(1,3) by simp
  have 6: "distinct (inorder (Node ll c r))" using di by auto
  have 7: "n \<notin> set_tree (Node ll c r)" using dis by auto
  have 8: "p \<notin> set_tree (Node ll c r) \<and> p \<noteq> n \<and> p < length h2" if "par = Some p" for p
    using pa[OF that] h2(2) by auto
  from remove_finish_shape[OF 5 nn(2) 4 6 7 8] obtain h' where h':
    "remove_finish h2 n (Some c) = (Inr (Some c), h')" "shape h' (Some c) par (Node ll c r)"
    "spliced h2 n par (set_tree (Node ll c r)) (Some c) h'"
    by blast
  have 9: "remove_with_predecessor h n c c = (Inr (Some c), h')"
    using h2(1) h'(1) by (simp add: remove_with_predecessor_def)
  have 10: "relinked h h2"
    using h2(2,3) by (rule relinked_pointwise) (rule adopted_right_key_val)
  have "spliced h n par (set_tree (Node (Node ll c Leaf) n r)) (Some c) h'"
    using h'(3) 10
  proof (rule spliced_after)
    show "set_tree (Node ll c r) \<subseteq> set_tree (Node (Node ll c Leaf) n r)" by auto
  next
    fix a assume "a \<notin> set_tree (Node (Node ll c Leaf) n r) \<or> a = n"
    then have "a \<noteq> c" "a \<noteq> d" using dis(1,3) dr by auto
    then show "lookup h2 a = lookup h a" by (rule other)
  next
    fix p assume "par = Some p"
    then show "p \<notin> set_tree (Node (Node ll c Leaf) n r)" using pa by blast
  qed
  then show ?thesis using 9 h'(2) by blast
qed

lemma remove_with_predecessor_deep:
  assumes sh: "shape h (Some n) par (Node (Node ll c lr) n r)" and lr: "lr \<noteq> Leaf"
    and r: "r \<noteq> Leaf"
    and di: "distinct (inorder (Node (Node ll c lr) n r))"
    and pa: "\<And>p. par = Some p \<Longrightarrow> p \<notin> set_tree (Node (Node ll c lr) n r) \<and> p < length h"
    and m: "m = last (inorder lr)"
  shows "\<exists>h'. remove_with_predecessor h n c m = (Inr (Some m), h') \<and>
     shape h' (Some m) par (Node (Node ll c (del_max lr)) m r) \<and>
     spliced h n par (set_tree (Node (Node ll c lr) n r)) (Some m) h'"
proof -
  from sh obtain nn where nn: "lookup h n = Some nn" "parent nn = par"
    "shape h (leftChild nn) (Some n) (Node ll c lr)" "shape h (rightChild nn) (Some n) r"
    by (rule shape_NodeE)
  have c: "leftChild nn = Some c" using nn(3) by (rule shape_NodeE)
  obtain d where d: "rightChild nn = Some d" using nn(4) r by (cases "rightChild nn") auto
  have dr: "d \<in> set_tree r" using nn(4) d shape_root_in by metis
  have ml: "m \<in> set_tree lr" using m lr by (simp add: last_in_tree)
  have md: "m \<notin> set_tree (del_max lr)"
    using m lr di by (simp add: last_notin_del_max)
  have dis: "c \<noteq> n" "c \<noteq> d" "n \<noteq> d" "m \<noteq> c" "m \<noteq> n" "m \<noteq> d"
    "m \<notin> set_tree ll" "m \<notin> set_tree r" "c \<notin> set_tree r" "c \<notin> set_tree ll" "c \<notin> set_tree lr"
    "n \<notin> set_tree ll" "n \<notin> set_tree lr" "n \<notin> set_tree r" "d \<notin> set_tree ll" "d \<notin> set_tree lr"
    "set_tree ll \<inter> set_tree r = {}" "set_tree lr \<inter> set_tree r = {}"
    "set_tree ll \<inter> set_tree lr = {}"
    "distinct (inorder ll)" "distinct (inorder lr)" "distinct (inorder r)"
    using di dr ml by (auto simp: disjoint_iff)
  have dl: "distinct (inorder (Node ll c lr))" using di by auto
  have "m < length h" using shape_less[OF nn(3)] ml by simp
  then obtain mn where mn: "lookup h m = Some mn" using less_lookup by blast
  from replaceWith_max[OF nn(3)[unfolded c] dl lr mn[unfolded m]] obtain h1 where h1:
    "replaceWith h m (leftChild mn) = (Inr (), h1)"
    "shape h1 (Some c) (Some n) (Node ll c (del_max lr))"
    "\<And>x. x \<notin> set_tree lr \<Longrightarrow> x \<noteq> c \<Longrightarrow> lookup h1 x = lookup h x"
    "lookup h1 m = Some mn" "relinked h h1"
    unfolding m by blast
  have len1: "length h1 = length h" using h1(5) by (rule relinked_length)
  have n1: "lookup h1 n = Some nn" using h1(3)[of n] dis nn(1) by simp
  have "c < length h1" "m < length h1" "d < length h1"
    using len1 shape_less[OF nn(3), of c] shape_less[OF nn(3), of m] shape_less[OF nn(4) dr] ml
    by auto
  note lens = this
  from adoptLeftChild_result[OF n1 c lens(1,2)] obtain h2 where h2:
    "adoptLeftChild h1 m n = (Inr (), h2)" "length h2 = length h1"
    "\<And>a. lookup h2 a = map_option (adopted_left m c a) (lookup h1 a)"
    by blast
  have other2: "lookup h2 x = lookup h1 x" if "x \<noteq> m" "x \<noteq> c" for x
    using h2(3) by (rule pointwise_other) (simp add: adopted_left_other that)
  have n2: "lookup h2 n = Some nn" using other2[of n] n1 dis by simp
  have "d < length h2" "m < length h2" using lens h2(2) by auto
  from adoptRightChild_result[OF n2 d this] obtain h3 where h3:
    "adoptRightChild h2 m n = (Inr (), h3)" "length h3 = length h2"
    "\<And>a. lookup h3 a = map_option (adopted_right m d a) (lookup h2 a)"
    by blast
  have other3: "lookup h3 x = lookup h2 x" if "x \<noteq> m" "x \<noteq> d" for x
    using h3(3) by (rule pointwise_other) (simp add: adopted_right_other that)
  have other: "lookup h3 x = lookup h1 x" if "x \<noteq> m" "x \<noteq> c" "x \<noteq> d" for x
    using other2[of x] other3[of x] that by simp
  have m3: "lookup h3 m = Some (mn\<lparr>leftChild := Some c, rightChild := Some d\<rparr>)"
    using h3(3)[of m] h2(3)[of m] h1(4) dis(4,6)
    by (simp add: adopted_left_this adopted_right_this)
  have "shape h3 (Some c) (Some m) (Node ll c (del_max lr))"
    using h1(2)
  proof (rule shape_reparent)
    show "distinct (inorder (Node ll c (del_max lr)))"
      using dl set_del_max[of lr] by (auto simp: distinct_del_max disjoint_iff)
  next
    fix x xn assume "Some c = Some x" "lookup h1 x = Some xn"
    then show "lookup h3 x = Some (xn\<lparr>parent := Some m\<rparr>)"
      using other3[of c] h2(3)[of c] dis by (simp add: adopted_left_child)
  next
    fix x assume "x \<in> set_tree (Node ll c (del_max lr))" "Some c \<noteq> Some x"
    then have "x \<in> set_tree ll \<or> x \<in> set_tree (del_max lr)" "x \<noteq> c" by auto
    then have "x \<noteq> m" "x \<noteq> c" "x \<noteq> d" using md dis set_del_max[of lr] by auto
    then show "lookup h3 x = lookup h1 x" by (rule other)
  qed
  moreover have "shape h3 (Some d) (Some m) r"
    using nn(4)[unfolded d] dis(22)
  proof (rule shape_reparent)
    fix x xn assume "Some d = Some x" "lookup h x = Some xn"
    then show "lookup h3 x = Some (xn\<lparr>parent := Some m\<rparr>)"
      using h3(3)[of d] other2[of d] h1(3)[of d] dis by (simp add: adopted_right_child)
  next
    fix x assume "x \<in> set_tree r" "Some d \<noteq> Some x"
    then have "x \<noteq> m" "x \<noteq> c" "x \<noteq> d" "x \<notin> set_tree lr" using dis by auto
    then show "lookup h3 x = lookup h x"
      using other[of x] h1(3)[of x] by simp
  qed
  ultimately have 4: "shape h3 (Some m) (parent mn) (Node (Node ll c (del_max lr)) m r)"
    using m3 by simp
  have 5: "lookup h3 n = Some nn" using other[of n] n1 dis by simp
  have 6: "distinct (inorder (Node (Node ll c (del_max lr)) m r))"
    using di md dis set_del_max[of lr] by (auto simp: distinct_del_max disjoint_iff)
  have 7: "n \<notin> set_tree (Node (Node ll c (del_max lr)) m r)"
    using dis set_del_max[of lr] by auto
  have 8: "p \<notin> set_tree (Node (Node ll c (del_max lr)) m r) \<and> p \<noteq> n \<and> p < length h3"
    if "par = Some p" for p
    using pa[OF that] h2(2) h3(2) len1 set_del_max[of lr] ml by auto
  from remove_finish_shape[OF 5 nn(2) 4 6 7 8] obtain h' where h':
    "remove_finish h3 n (Some m) = (Inr (Some m), h')"
    "shape h' (Some m) par (Node (Node ll c (del_max lr)) m r)"
    "spliced h3 n par (set_tree (Node (Node ll c (del_max lr)) m r)) (Some m) h'"
    by blast
  have 9: "remove_with_predecessor h n c m = (Inr (Some m), h')"
    using dis(4) mn h1(1) h2(1) h3(1) h'(1) by (simp add: remove_with_predecessor_def)
  have "relinked h1 h2"
    using h2(2,3) by (rule relinked_pointwise) (rule adopted_left_key_val)
  moreover have "relinked h2 h3"
    using h3(2,3) by (rule relinked_pointwise) (rule adopted_right_key_val)
  ultimately have 10: "relinked h h3" using h1(5) relinked_trans by blast
  have "spliced h n par (set_tree (Node (Node ll c lr) n r)) (Some m) h'"
    using h'(3) 10
  proof (rule spliced_after)
    show "set_tree (Node (Node ll c (del_max lr)) m r) \<subseteq> set_tree (Node (Node ll c lr) n r)"
      using set_del_max[of lr] ml by auto
  next
    fix a assume "a \<notin> set_tree (Node (Node ll c lr) n r) \<or> a = n"
    then have "a \<noteq> m" "a \<noteq> c" "a \<noteq> d" "a \<notin> set_tree lr" using dis dr ml by auto
    then show "lookup h3 a = lookup h a"
      using other[of a] h1(3)[of a] by simp
  next
    fix p assume "par = Some p"
    then show "p \<notin> set_tree (Node (Node ll c lr) n r)" using pa by blast
  qed
  then show ?thesis using 9 h'(2) by blast
qed

lemma distinct_Node:
  "distinct (inorder (Node l a r)) \<longleftrightarrow>
     distinct (inorder l) \<and> distinct (inorder r) \<and> a \<notin> set_tree l \<and> a \<notin> set_tree r \<and>
     set_tree l \<inter> set_tree r = {}"
  by auto

lemma remove_with_successor_direct:
  assumes sh: "shape h (Some n) par (Node l n (Node Leaf d rr))" and l: "l \<noteq> Leaf"
    and di: "distinct (inorder (Node l n (Node Leaf d rr)))"
    and pa: "\<And>p. par = Some p \<Longrightarrow> p \<notin> set_tree (Node l n (Node Leaf d rr)) \<and> p < length h"
  shows "\<exists>h'. remove_with_successor h n d d = (Inr (Some d), h') \<and>
     shape h' (Some d) par (Node l d rr) \<and>
     spliced h n par (set_tree (Node l n (Node Leaf d rr))) (Some d) h'"
proof -
  from sh obtain nn where nn: "lookup h n = Some nn" "parent nn = par"
    "shape h (leftChild nn) (Some n) l" "shape h (rightChild nn) (Some n) (Node Leaf d rr)"
    by (rule shape_NodeE)
  from nn(4) obtain dn where dn: "rightChild nn = Some d" "lookup h d = Some dn"
    "parent dn = Some n" "shape h (leftChild dn) (Some d) Leaf" "shape h (rightChild dn) (Some d) rr"
    by (rule shape_NodeE)
  obtain c where c: "leftChild nn = Some c" using nn(3) l by (cases "leftChild nn") auto
  have cl: "c \<in> set_tree l" using nn(3) c shape_root_in by metis
  have dis: "d \<noteq> n" "d \<noteq> c" "n \<noteq> c" "d \<notin> set_tree rr" "d \<notin> set_tree l" "n \<notin> set_tree rr"
    "n \<notin> set_tree l" "c \<notin> set_tree rr" "set_tree rr \<inter> set_tree l = {}"
    "distinct (inorder rr)" "distinct (inorder l)"
    using di cl by (auto simp: disjoint_iff)
  have "c < length h" "d < length h"
    using shape_less[OF nn(3) cl] lookup_less[OF dn(2)] by auto
  with adoptLeftChild_result[OF nn(1) c] obtain h2 where h2:
    "adoptLeftChild h d n = (Inr (), h2)" "length h2 = length h"
    "\<And>a. lookup h2 a = map_option (adopted_left d c a) (lookup h a)"
    by blast
  have other: "lookup h2 x = lookup h x" if "x \<noteq> d" "x \<noteq> c" for x
    using h2(3) by (rule pointwise_other) (simp add: adopted_left_other that)
  have 1: "lookup h2 d = Some (dn\<lparr>leftChild := Some c\<rparr>)"
    using h2(3)[of d] dn(2) dis(2) by (simp add: adopted_left_this)
  have 2: "shape h2 (rightChild dn) (Some d) rr"
    using dn(5)
  proof (rule shape_frame)
    fix x assume "x \<in> set_tree rr"
    then have "x \<noteq> d" "x \<noteq> c" using dis by auto
    then show "lookup h2 x = lookup h x" by (rule other)
  qed
  have 3: "shape h2 (Some c) (Some d) l"
    using nn(3)[unfolded c] dis(11)
  proof (rule shape_reparent)
    fix x xn assume "Some c = Some x" "lookup h x = Some xn"
    then show "lookup h2 x = Some (xn\<lparr>parent := Some d\<rparr>)"
      using h2(3)[of c] dis(2) by (simp add: adopted_left_child)
  next
    fix x assume "x \<in> set_tree l" "Some c \<noteq> Some x"
    then have "x \<noteq> d" "x \<noteq> c" using dis(5) by auto
    then show "lookup h2 x = lookup h x" by (rule other)
  qed
  have 4: "shape h2 (Some d) (Some n) (Node l d rr)"
    using 1 2 3 dn(3) by simp
  have 5: "lookup h2 n = Some nn" using other[of n] nn(1) dis(1,3) by simp
  have 6: "distinct (inorder (Node l d rr))" using di by auto
  have 7: "n \<notin> set_tree (Node l d rr)" using dis by auto
  have 8: "p \<notin> set_tree (Node l d rr) \<and> p \<noteq> n \<and> p < length h2" if "par = Some p" for p
    using pa[OF that] h2(2) by auto
  from remove_finish_shape[OF 5 nn(2) 4 6 7 8] obtain h' where h':
    "remove_finish h2 n (Some d) = (Inr (Some d), h')" "shape h' (Some d) par (Node l d rr)"
    "spliced h2 n par (set_tree (Node l d rr)) (Some d) h'"
    by blast
  have 9: "remove_with_successor h n d d = (Inr (Some d), h')"
    using h2(1) h'(1) by (simp add: remove_with_successor_def)
  have 10: "relinked h h2"
    using h2(2,3) by (rule relinked_pointwise) (rule adopted_left_key_val)
  have "spliced h n par (set_tree (Node l n (Node Leaf d rr))) (Some d) h'"
    using h'(3) 10
  proof (rule spliced_after)
    show "set_tree (Node l d rr) \<subseteq> set_tree (Node l n (Node Leaf d rr))" by auto
  next
    fix a assume "a \<notin> set_tree (Node l n (Node Leaf d rr)) \<or> a = n"
    then have "a \<noteq> d" "a \<noteq> c" using dis(1,3) cl by auto
    then show "lookup h2 a = lookup h a" by (rule other)
  next
    fix p assume "par = Some p"
    then show "p \<notin> set_tree (Node l n (Node Leaf d rr))" using pa by blast
  qed
  then show ?thesis using 9 h'(2) by blast
qed

lemma remove_with_successor_deep:
  assumes sh: "shape h (Some n) par (Node l n (Node rl d rr))" and rl: "rl \<noteq> Leaf"
    and l: "l \<noteq> Leaf"
    and di: "distinct (inorder (Node l n (Node rl d rr)))"
    and pa: "\<And>p. par = Some p \<Longrightarrow> p \<notin> set_tree (Node l n (Node rl d rr)) \<and> p < length h"
    and m: "m = hd (inorder rl)"
  shows "\<exists>h'. remove_with_successor h n d m = (Inr (Some m), h') \<and>
     shape h' (Some m) par (Node l m (Node (del_min rl) d rr)) \<and>
     spliced h n par (set_tree (Node l n (Node rl d rr))) (Some m) h'"
proof -
  from sh obtain nn where nn: "lookup h n = Some nn" "parent nn = par"
    "shape h (leftChild nn) (Some n) l" "shape h (rightChild nn) (Some n) (Node rl d rr)"
    by (rule shape_NodeE)
  have d: "rightChild nn = Some d" using nn(4) by (rule shape_NodeE)
  obtain c where c: "leftChild nn = Some c" using nn(3) l by (cases "leftChild nn") auto
  have cl: "c \<in> set_tree l" using nn(3) c shape_root_in by metis
  have mr: "m \<in> set_tree rl" using m rl by (simp add: hd_in_tree)
  have md: "m \<notin> set_tree (del_min rl)"
    using m rl di by (simp add: hd_notin_del_min)
  have dis: "d \<noteq> n" "d \<noteq> c" "n \<noteq> c" "m \<noteq> d" "m \<noteq> n" "m \<noteq> c"
    "m \<notin> set_tree rr" "m \<notin> set_tree l" "d \<notin> set_tree l" "d \<notin> set_tree rr" "d \<notin> set_tree rl"
    "n \<notin> set_tree rr" "n \<notin> set_tree rl" "n \<notin> set_tree l" "c \<notin> set_tree rr" "c \<notin> set_tree rl"
    "set_tree rr \<inter> set_tree l = {}" "set_tree rl \<inter> set_tree l = {}"
    "set_tree rr \<inter> set_tree rl = {}"
    "distinct (inorder rr)" "distinct (inorder rl)" "distinct (inorder l)"
    using di cl mr by (auto simp: disjoint_iff)
  have dl: "distinct (inorder (Node rl d rr))" using di by auto
  have "m < length h" using shape_less[OF nn(4)] mr by simp
  then obtain mn where mn: "lookup h m = Some mn" using less_lookup by blast
  from replaceWith_min[OF nn(4)[unfolded d] dl rl mn[unfolded m]] obtain h1 where h1:
    "replaceWith h m (rightChild mn) = (Inr (), h1)"
    "shape h1 (Some d) (Some n) (Node (del_min rl) d rr)"
    "\<And>x. x \<notin> set_tree rl \<Longrightarrow> x \<noteq> d \<Longrightarrow> lookup h1 x = lookup h x"
    "lookup h1 m = Some mn" "relinked h h1"
    unfolding m by blast
  have len1: "length h1 = length h" using h1(5) by (rule relinked_length)
  have n1: "lookup h1 n = Some nn" using h1(3)[of n] dis nn(1) by simp
  have "d < length h1" "m < length h1" "c < length h1"
    using len1 shape_less[OF nn(4), of d] shape_less[OF nn(4), of m] shape_less[OF nn(3) cl] mr
    by auto
  note lens = this
  from adoptRightChild_result[OF n1 d lens(1,2)] obtain h2 where h2:
    "adoptRightChild h1 m n = (Inr (), h2)" "length h2 = length h1"
    "\<And>a. lookup h2 a = map_option (adopted_right m d a) (lookup h1 a)"
    by blast
  have other2: "lookup h2 x = lookup h1 x" if "x \<noteq> m" "x \<noteq> d" for x
    using h2(3) by (rule pointwise_other) (simp add: adopted_right_other that)
  have n2: "lookup h2 n = Some nn" using other2[of n] n1 dis by simp
  have "c < length h2" "m < length h2" using lens h2(2) by auto
  from adoptLeftChild_result[OF n2 c this] obtain h3 where h3:
    "adoptLeftChild h2 m n = (Inr (), h3)" "length h3 = length h2"
    "\<And>a. lookup h3 a = map_option (adopted_left m c a) (lookup h2 a)"
    by blast
  have other3: "lookup h3 x = lookup h2 x" if "x \<noteq> m" "x \<noteq> c" for x
    using h3(3) by (rule pointwise_other) (simp add: adopted_left_other that)
  have other: "lookup h3 x = lookup h1 x" if "x \<noteq> m" "x \<noteq> d" "x \<noteq> c" for x
    using other2[of x] other3[of x] that by simp
  have m3: "lookup h3 m = Some (mn\<lparr>rightChild := Some d, leftChild := Some c\<rparr>)"
    using h3(3)[of m] h2(3)[of m] h1(4) dis(4,6)
    by (simp add: adopted_left_this adopted_right_this)
  have "shape h3 (Some d) (Some m) (Node (del_min rl) d rr)"
    using h1(2)
  proof (rule shape_reparent)
    show "distinct (inorder (Node (del_min rl) d rr))"
      using dl set_del_min[of rl] by (auto simp: distinct_del_min disjoint_iff)
  next
    fix x xn assume "Some d = Some x" "lookup h1 x = Some xn"
    then show "lookup h3 x = Some (xn\<lparr>parent := Some m\<rparr>)"
      using other3[of d] h2(3)[of d] dis by (simp add: adopted_right_child)
  next
    fix x assume "x \<in> set_tree (Node (del_min rl) d rr)" "Some d \<noteq> Some x"
    then have "x \<in> set_tree rr \<or> x \<in> set_tree (del_min rl)" "x \<noteq> d" by auto
    then have "x \<noteq> m" "x \<noteq> d" "x \<noteq> c" using md dis set_del_min[of rl] by auto
    then show "lookup h3 x = lookup h1 x" by (rule other)
  qed
  moreover have "shape h3 (Some c) (Some m) l"
    using nn(3)[unfolded c] dis(22)
  proof (rule shape_reparent)
    fix x xn assume "Some c = Some x" "lookup h x = Some xn"
    then show "lookup h3 x = Some (xn\<lparr>parent := Some m\<rparr>)"
      using h3(3)[of c] other2[of c] h1(3)[of c] dis by (simp add: adopted_left_child)
  next
    fix x assume "x \<in> set_tree l" "Some c \<noteq> Some x"
    then have "x \<noteq> m" "x \<noteq> d" "x \<noteq> c" "x \<notin> set_tree rl" using dis by auto
    then show "lookup h3 x = lookup h x"
      using other[of x] h1(3)[of x] by simp
  qed
  ultimately have 4: "shape h3 (Some m) (parent mn) (Node l m (Node (del_min rl) d rr))"
    using m3 by simp
  have 5: "lookup h3 n = Some nn" using other[of n] n1 dis by simp
  have sub: "set_tree (del_min rl) \<subseteq> set_tree rl" by (rule set_del_min)
  have dd: "distinct (inorder (Node (del_min rl) d rr))"
    using dl sub by (auto simp: distinct_del_min disjoint_iff)
  have i1: "set_tree l \<inter> set_tree (Node (del_min rl) d rr) = {}"
    using dis(9,17,18) sub by auto
  have i2: "m \<notin> set_tree l" "m \<notin> set_tree (Node (del_min rl) d rr)"
    using dis(4,7,8) md by auto
  have 6: "distinct (inorder (Node l m (Node (del_min rl) d rr)))"
    unfolding distinct_Node[of l m] using dis(22) dd i1 i2 by blast
  have 7: "n \<notin> set_tree (Node l m (Node (del_min rl) d rr))"
    using dis set_del_min[of rl] by auto
  have 8: "p \<notin> set_tree (Node l m (Node (del_min rl) d rr)) \<and> p \<noteq> n \<and> p < length h3"
    if "par = Some p" for p
    using pa[OF that] h2(2) h3(2) len1 set_del_min[of rl] mr by auto
  from remove_finish_shape[OF 5 nn(2) 4 6 7 8] obtain h' where h':
    "remove_finish h3 n (Some m) = (Inr (Some m), h')"
    "shape h' (Some m) par (Node l m (Node (del_min rl) d rr))"
    "spliced h3 n par (set_tree (Node l m (Node (del_min rl) d rr))) (Some m) h'"
    by blast
  have 9: "remove_with_successor h n d m = (Inr (Some m), h')"
    using dis(4) mn h1(1) h2(1) h3(1) h'(1) by (simp add: remove_with_successor_def)
  have "relinked h1 h2"
    using h2(2,3) by (rule relinked_pointwise) (rule adopted_right_key_val)
  moreover have "relinked h2 h3"
    using h3(2,3) by (rule relinked_pointwise) (rule adopted_left_key_val)
  ultimately have 10: "relinked h h3" using h1(5) relinked_trans by blast
  have "spliced h n par (set_tree (Node l n (Node rl d rr))) (Some m) h'"
    using h'(3) 10
  proof (rule spliced_after)
    show "set_tree (Node l m (Node (del_min rl) d rr)) \<subseteq> set_tree (Node l n (Node rl d rr))"
      using set_del_min[of rl] mr by auto
  next
    fix a assume "a \<notin> set_tree (Node l n (Node rl d rr)) \<or> a = n"
    then have "a \<noteq> m" "a \<noteq> d" "a \<noteq> c" "a \<notin> set_tree rl" using dis cl mr by auto
    then show "lookup h3 a = lookup h a"
      using other[of a] h1(3)[of a] by simp
  next
    fix p assume "par = Some p"
    then show "p \<notin> set_tree (Node l n (Node rl d rr))" using pa by blast
  qed
  then show ?thesis using 9 h'(2) by blast
qed

subsection \<open>Removal of the root of a subtree\<close>

lemma node_remove_local:
  assumes sh: "shape h (Some n) par (Node l n r)" and di: "distinct (inorder (Node l n r))"
    and pa: "\<And>p. par = Some p \<Longrightarrow>
       p \<notin> set_tree (Node l n r) \<and> (\<exists>pn. lookup h p = Some pn \<and> (leftChild pn = Some n) = b)"
    and ro: "par = None \<Longrightarrow> b"
  shows "\<exists>h' rp. node_remove h n = Some (Inr rp, h') \<and>
     shape h' rp par (splice b (Node l n r)) \<and>
     spliced h n par (set_tree (Node l n r)) rp h'"
proof -
  from sh obtain nn where nn: "lookup h n = Some nn" "parent nn = par"
    "shape h (leftChild nn) (Some n) l" "shape h (rightChild nn) (Some n) r"
    by (rule shape_NodeE)
  have irl: "is_root_or_left h n nn = Inr b"
  proof (cases par)
    case None
    then show ?thesis using nn(2) ro by (simp add: is_root_or_left_def)
  next
    case (Some p)
    then show ?thesis using nn(2) pa[OF Some] by (auto simp: is_root_or_left_def)
  qed
  have pa': "p \<notin> set_tree (Node l n r) \<and> p < length h" if "par = Some p" for p
    using pa[OF that] lookup_less by blast
  have dis: "n \<notin> set_tree l" "n \<notin> set_tree r" "distinct (inorder l)" "distinct (inorder r)"
    using di by auto
  have single: "\<exists>h'. remove_finish h n ch = (Inr ch, h') \<and> shape h' ch par s \<and>
       spliced h n par (set_tree (Node l n r)) ch h'"
    if s: "shape h ch (Some n) s" "distinct (inorder s)" "set_tree s \<subseteq> set_tree (Node l n r)"
      "n \<notin> set_tree s" for ch s
  proof -
    have "p \<notin> set_tree s \<and> p \<noteq> n \<and> p < length h" if "par = Some p" for p
      using pa'[OF that] s(3) by auto
    from remove_finish_shape[OF nn(1,2) s(1,2,4) this] obtain h' where h':
      "remove_finish h n ch = (Inr ch, h')" "shape h' ch par s"
      "spliced h n par (set_tree s) ch h'"
      by blast
    have "spliced h n par (set_tree (Node l n r)) ch h'"
      using h'(3) relinked_refl s(3) by (rule spliced_after) (use pa' in auto)
    then show ?thesis using h'(1,2) by blast
  qed
  show ?thesis
  proof (cases "r = Leaf")
    case True
    then have rc: "rightChild nn = None" using nn(4) by simp
    have 1: "node_remove h n = Some (remove_finish h n (leftChild nn))"
      using nn(1) rc by (simp add: node_remove_def)
    from single[OF nn(3) dis(3) _ dis(1)] obtain h' where
      "remove_finish h n (leftChild nn) = (Inr (leftChild nn), h')"
      "shape h' (leftChild nn) par l"
      "spliced h n par (set_tree (Node l n r)) (leftChild nn) h'"
      by auto
    then show ?thesis using 1 True by auto
  next
    case rne: False
    then obtain d where d: "rightChild nn = Some d" using nn(4) by (cases "rightChild nn") auto
    show ?thesis
    proof (cases "l = Leaf")
      case True
      then have lc: "leftChild nn = None" using nn(3) by simp
      have 1: "node_remove h n = Some (remove_finish h n (rightChild nn))"
        using nn(1) lc d by (simp add: node_remove_def)
      from single[OF nn(4) dis(4) _ dis(2)] obtain h' where
        "remove_finish h n (rightChild nn) = (Inr (rightChild nn), h')"
        "shape h' (rightChild nn) par r"
        "spliced h n par (set_tree (Node l n r)) (rightChild nn) h'"
        by auto
      then show ?thesis using 1 True rne by auto
    next
      case lne: False
      then obtain c where c: "leftChild nn = Some c" using nn(3) by (cases "leftChild nn") auto
      from lne nn(3) c obtain ll lr where l: "l = Node ll c lr" by (cases l) auto
      from rne nn(4) d obtain rl rr where r: "r = Node rl d rr" by (cases r) auto
      show ?thesis
      proof (cases b)
        case True
        have mx: "node_max h c = Some (Inr (last (inorder l)))"
          using nn(3) c node_max_shape by metis
        have 1: "node_remove h n = Some (remove_with_predecessor h n c (last (inorder l)))"
          using nn(1) c d irl True mx by (simp add: node_remove_def)
        show ?thesis
        proof (cases "lr = Leaf")
          case lrl: True
          have "\<exists>h'. remove_with_predecessor h n c c = (Inr (Some c), h') \<and>
             shape h' (Some c) par (Node ll c r) \<and>
             spliced h n par (set_tree (Node (Node ll c Leaf) n r)) (Some c) h'"
            using sh[unfolded l lrl] rne di[unfolded l lrl] pa'[unfolded l lrl]
            by (rule remove_with_predecessor_direct)
          then show ?thesis using 1 True l lrl rne by auto
        next
          case lrn: False
          have "\<exists>h'. remove_with_predecessor h n c (last (inorder lr)) =
               (Inr (Some (last (inorder lr))), h') \<and>
             shape h' (Some (last (inorder lr))) par
               (Node (Node ll c (del_max lr)) (last (inorder lr)) r) \<and>
             spliced h n par (set_tree (Node (Node ll c lr) n r)) (Some (last (inorder lr))) h'"
            using sh[unfolded l] lrn rne di[unfolded l] pa'[unfolded l]
            by (rule remove_with_predecessor_deep) simp_all
          then show ?thesis using 1 True l lrn rne by (auto simp: inorder_Nil_iff)
        qed
      next
        case False
        have mi: "node_min h d = Some (Inr (hd (inorder r)))"
          using nn(4) d node_min_shape by metis
        have 1: "node_remove h n = Some (remove_with_successor h n d (hd (inorder r)))"
          using nn(1) c d irl False mi by (simp add: node_remove_def)
        show ?thesis
        proof (cases "rl = Leaf")
          case rll: True
          have "\<exists>h'. remove_with_successor h n d d = (Inr (Some d), h') \<and>
             shape h' (Some d) par (Node l d rr) \<and>
             spliced h n par (set_tree (Node l n (Node Leaf d rr))) (Some d) h'"
            using sh[unfolded r rll] lne di[unfolded r rll] pa'[unfolded r rll]
            by (rule remove_with_successor_direct)
          then show ?thesis using 1 False r rll lne by auto
        next
          case rln: False
          have "\<exists>h'. remove_with_successor h n d (hd (inorder rl)) =
               (Inr (Some (hd (inorder rl))), h') \<and>
             shape h' (Some (hd (inorder rl))) par
               (Node l (hd (inorder rl)) (Node (del_min rl) d rr)) \<and>
             spliced h n par (set_tree (Node l n (Node rl d rr))) (Some (hd (inorder rl))) h'"
            using sh[unfolded r] rln lne di[unfolded r] pa'[unfolded r]
            by (rule remove_with_successor_deep) simp_all
          then show ?thesis using 1 False r rln lne by (auto simp: inorder_Nil_iff)
        qed
      qed
    qed
  qed
qed

subsection \<open>Removal of a node anywhere in a tree\<close>

lemma remove_tree_notin: "n \<notin> set_tree t \<Longrightarrow> remove_tree n b t = t"
  by (induction t arbitrary: b) auto

lemma inorder_splice: "inorder (splice b (Node l n r)) = inorder l @ inorder r"
  by (auto simp: inorder_del_max inorder_del_min inorder_Nil_iff)

lemma inorder_remove_tree:
  "distinct (inorder t) \<Longrightarrow> inorder (remove_tree n b t) = filter (\<lambda>x. x \<noteq> n) (inorder t)"
proof (induction t arbitrary: b)
  case Leaf
  then show ?case by simp
next
  case (Node l a r)
  show ?case
  proof (cases "a = n")
    case True
    then have "n \<notin> set (inorder l)" "n \<notin> set (inorder r)" using Node.prems by auto
    then have "filter (\<lambda>x. x \<noteq> n) (inorder l) = inorder l"
      "filter (\<lambda>x. x \<noteq> n) (inorder r) = inorder r"
      by (auto simp: filter_id_conv)
    then show ?thesis using True inorder_splice[of b l n r] by simp
  next
    case False
    then show ?thesis using Node by simp
  qed
qed

lemma spliced_lookup_parent:
  "spliced h n (Some p) S rp h' \<Longrightarrow> lookup h p = Some pn \<Longrightarrow>
   lookup h' p = Some (if leftChild pn = Some n then pn\<lparr>leftChild := rp\<rparr>
                       else pn\<lparr>rightChild := rp\<rparr>)"
  by (simp add: spliced_def)

lemma spliced_frame:
  "spliced h n par S rp h' \<Longrightarrow> a \<notin> S \<Longrightarrow> par \<noteq> Some a \<Longrightarrow> lookup h' a = lookup h a"
  by (simp add: spliced_def)

lemma spliced_relinked: "spliced h n par S rp h' \<Longrightarrow> relinked h h'"
  by (simp add: spliced_def)

lemma spliced_self: "spliced h n par S rp h' \<Longrightarrow> lookup h' n = lookup h n"
  by (simp add: spliced_def)

lemma node_remove_inner:
  assumes "shape h p par t" "distinct (inorder t)" "n \<in> set_tree t" "p \<noteq> Some n"
  shows "\<exists>h' rp. node_remove h n = Some (Inr rp, h') \<and> shape h' p par (remove_tree n b t) \<and>
     relinked h h' \<and> lookup h' n = lookup h n \<and>
     (\<forall>a. a \<notin> set_tree t \<longrightarrow> lookup h' a = lookup h a)"
  using assms
proof (induction t arbitrary: p par b)
  case Leaf
  then show ?case by simp
next
  case (Node L a R)
  from Node.prems(1) obtain an where an: "p = Some a" "lookup h a = Some an" "parent an = par"
    "shape h (leftChild an) (Some a) L" "shape h (rightChild an) (Some a) R"
    by (rule shape_NodeE)
  have ne: "a \<noteq> n" using Node.prems(4) an(1) by simp
  have dis: "a \<notin> set_tree L" "a \<notin> set_tree R" "set_tree L \<inter> set_tree R = {}"
    "distinct (inorder L)" "distinct (inorder R)"
    using Node.prems(2) by auto
  consider "n \<in> set_tree L" "n \<notin> set_tree R" | "n \<in> set_tree R" "n \<notin> set_tree L"
    using Node.prems(3) ne dis(3) by auto
  then show ?case
  proof cases
    case 1
    have rt: "remove_tree n b (Node L a R) = Node (remove_tree n True L) a R"
      using ne 1(2) by (simp add: remove_tree_notin)
    show ?thesis
    proof (cases "leftChild an = Some n")
      case True
      then obtain l r where L: "L = Node l n r" using an(4) by (auto simp: shape_Some)
      have "\<exists>h' rp. node_remove h n = Some (Inr rp, h') \<and>
         shape h' rp (Some a) (splice True (Node l n r)) \<and>
         spliced h n (Some a) (set_tree (Node l n r)) rp h'"
        using an(4)[unfolded True L] dis(4)[unfolded L]
      proof (rule node_remove_local)
        fix q assume "Some a = Some q"
        then show "q \<notin> set_tree (Node l n r) \<and>
           (\<exists>pn. lookup h q = Some pn \<and> (leftChild pn = Some n) = True)"
          using dis(1) L an(2) True by auto
      qed simp
      then obtain h' rp where h': "node_remove h n = Some (Inr rp, h')"
        "shape h' rp (Some a) (splice True L)" "spliced h n (Some a) (set_tree L) rp h'"
        using L by blast
      have la: "lookup h' a = Some (an\<lparr>leftChild := rp\<rparr>)"
        using spliced_lookup_parent[OF h'(3) an(2)] True by simp
      have fr: "lookup h' x = lookup h x" if "x \<notin> set_tree L" "x \<noteq> a" for x
        using h'(3) that(1) by (rule spliced_frame) (use that(2) in simp)
      have "shape h' (rightChild an) (Some a) R"
        using an(5)
      proof (rule shape_frame)
        fix x assume "x \<in> set_tree R"
        then have "x \<notin> set_tree L" "x \<noteq> a" using dis by auto
        then show "lookup h' x = lookup h x" by (rule fr)
      qed
      then have "shape h' p par (remove_tree n b (Node L a R))"
        using la h'(2) an(1,3) rt L by simp
      moreover have "\<forall>x. x \<notin> set_tree (Node L a R) \<longrightarrow> lookup h' x = lookup h x"
        using fr by simp
      ultimately show ?thesis
        using h'(1) spliced_relinked[OF h'(3)] spliced_self[OF h'(3)] by blast
    next
      case False
      from Node.IH(1)[OF an(4) dis(4) 1(1) False, of True] obtain h' rp where h':
        "node_remove h n = Some (Inr rp, h')"
        "shape h' (leftChild an) (Some a) (remove_tree n True L)" "relinked h h'"
        "lookup h' n = lookup h n" "\<And>x. x \<notin> set_tree L \<Longrightarrow> lookup h' x = lookup h x"
        by blast
      have la: "lookup h' a = Some an" using h'(5)[OF dis(1)] an(2) by simp
      have "shape h' (rightChild an) (Some a) R"
        using an(5)
      proof (rule shape_frame)
        fix x assume "x \<in> set_tree R"
        then have "x \<notin> set_tree L" using dis by auto
        then show "lookup h' x = lookup h x" by (rule h'(5))
      qed
      then have "shape h' p par (remove_tree n b (Node L a R))"
        using la h'(2) an(1,3) rt by simp
      moreover have "\<forall>x. x \<notin> set_tree (Node L a R) \<longrightarrow> lookup h' x = lookup h x"
        using h'(5) by simp
      ultimately show ?thesis using h'(1,3,4) by blast
    qed
  next
    case 2
    have rt: "remove_tree n b (Node L a R) = Node L a (remove_tree n False R)"
      using ne 2(2) by (simp add: remove_tree_notin)
    have nl: "leftChild an \<noteq> Some n"
      using an(4) 2(2) shape_root_in by metis
    show ?thesis
    proof (cases "rightChild an = Some n")
      case True
      then obtain l r where R: "R = Node l n r" using an(5) by (auto simp: shape_Some)
      have "\<exists>h' rp. node_remove h n = Some (Inr rp, h') \<and>
         shape h' rp (Some a) (splice False (Node l n r)) \<and>
         spliced h n (Some a) (set_tree (Node l n r)) rp h'"
        using an(5)[unfolded True R] dis(5)[unfolded R]
      proof (rule node_remove_local)
        fix q assume "Some a = Some q"
        then show "q \<notin> set_tree (Node l n r) \<and>
           (\<exists>pn. lookup h q = Some pn \<and> (leftChild pn = Some n) = False)"
          using dis(2) R an(2) nl by auto
      qed simp
      then obtain h' rp where h': "node_remove h n = Some (Inr rp, h')"
        "shape h' rp (Some a) (splice False R)" "spliced h n (Some a) (set_tree R) rp h'"
        using R by blast
      have la: "lookup h' a = Some (an\<lparr>rightChild := rp\<rparr>)"
        using spliced_lookup_parent[OF h'(3) an(2)] nl by simp
      have fr: "lookup h' x = lookup h x" if "x \<notin> set_tree R" "x \<noteq> a" for x
        using h'(3) that(1) by (rule spliced_frame) (use that(2) in simp)
      have "shape h' (leftChild an) (Some a) L"
        using an(4)
      proof (rule shape_frame)
        fix x assume "x \<in> set_tree L"
        then have "x \<notin> set_tree R" "x \<noteq> a" using dis by auto
        then show "lookup h' x = lookup h x" by (rule fr)
      qed
      then have "shape h' p par (remove_tree n b (Node L a R))"
        using la h'(2) an(1,3) rt R by simp
      moreover have "\<forall>x. x \<notin> set_tree (Node L a R) \<longrightarrow> lookup h' x = lookup h x"
        using fr by simp
      ultimately show ?thesis
        using h'(1) spliced_relinked[OF h'(3)] spliced_self[OF h'(3)] by blast
    next
      case False
      from Node.IH(2)[OF an(5) dis(5) 2(1) False, of False] obtain h' rp where h':
        "node_remove h n = Some (Inr rp, h')"
        "shape h' (rightChild an) (Some a) (remove_tree n False R)" "relinked h h'"
        "lookup h' n = lookup h n" "\<And>x. x \<notin> set_tree R \<Longrightarrow> lookup h' x = lookup h x"
        by blast
      have la: "lookup h' a = Some an" using h'(5)[OF dis(2)] an(2) by simp
      have "shape h' (leftChild an) (Some a) L"
        using an(4)
      proof (rule shape_frame)
        fix x assume "x \<in> set_tree L"
        then have "x \<notin> set_tree R" using dis by auto
        then show "lookup h' x = lookup h x" by (rule h'(5))
      qed
      then have "shape h' p par (remove_tree n b (Node L a R))"
        using la h'(2) an(1,3) rt by simp
      moreover have "\<forall>x. x \<notin> set_tree (Node L a R) \<longrightarrow> lookup h' x = lookup h x"
        using h'(5) by simp
      ultimately show ?thesis using h'(1,3,4) by blast
    qed
  qed
qed

lemma node_remove_shape:
  assumes "shape h p None t" "distinct (inorder t)" "n \<in> set_tree t"
  shows "\<exists>h' rp. node_remove h n = Some (Inr rp, h') \<and>
     shape h' (if p = Some n then rp else p) None (remove_tree n True t) \<and>
     relinked h h' \<and> lookup h' n = lookup h n \<and>
     (\<forall>a. a \<notin> set_tree t \<longrightarrow> lookup h' a = lookup h a)"
proof (cases "p = Some n")
  case True
  then obtain l r where t: "t = Node l n r" using assms(1) by (auto simp: shape_Some)
  have "\<exists>h' rp. node_remove h n = Some (Inr rp, h') \<and>
     shape h' rp None (splice True (Node l n r)) \<and>
     spliced h n None (set_tree (Node l n r)) rp h'"
    using assms(1)[unfolded True t] assms(2)[unfolded t]
    by (rule node_remove_local) simp_all
  then obtain h' rp where h': "node_remove h n = Some (Inr rp, h')"
    "shape h' rp None (splice True t)" "spliced h n None (set_tree t) rp h'"
    using t by blast
  have "\<forall>a. a \<notin> set_tree t \<longrightarrow> lookup h' a = lookup h a"
    using spliced_frame[OF h'(3)] by simp
  then show ?thesis
    using True t h'(1,2) spliced_relinked[OF h'(3)] spliced_self[OF h'(3)] by auto
next
  case False
  then show ?thesis using node_remove_inner[OF assms False, of True] by simp
qed

subsection \<open>The container\<close>

lemma linked_nodes: "linked t lay \<Longrightarrow> tree_nodes t = set_tree lay"
  unfolding linked_def tree_nodes_def using reach_shape by blast

lemma linked_keys: "linked t lay \<Longrightarrow> tree_keys t = key_of (heap t) ` set_tree lay"
  by (simp add: tree_keys_def linked_nodes)

lemma linked_traverse: "linked t lay \<Longrightarrow> tree_traverse t = Some (Inr (inorder lay))"
  by (simp add: linked_def tree_traverse_shape)

lemma linked_new: "linked new_BinarySearchTree Leaf"
  by (simp add: linked_def new_BinarySearchTree_def)

lemma new_keys: "tree_keys new_BinarySearchTree = {}"
  using linked_keys[OF linked_new] by simp

lemma well_formed_new: "well_formed new_BinarySearchTree"
  unfolding well_formed_def using linked_new by (intro exI[of _ Leaf]) simp

lemma relinked_key_of: "relinked h h' \<Longrightarrow> a < length h \<Longrightarrow> key_of h' a = key_of h a"
  by (simp add: relinked_def)

lemma relinked_val_of: "relinked h h' \<Longrightarrow> a < length h \<Longrightarrow> val_of h' a = val_of h a"
  by (simp add: relinked_def)

lemma ordered_remove_tree:
  assumes "ordered h lay" "distinct (inorder lay)" "relinked h h'"
    and "\<And>a. a \<in> set_tree lay \<Longrightarrow> a < length h"
  shows "ordered h' (remove_tree n b lay)"
proof -
  let ?xs = "filter (\<lambda>x. x \<noteq> n) (inorder lay)"
  have "sorted_wrt (\<lambda>x y. key_of h x < key_of h y) (inorder lay)"
    using assms(1) by (simp add: ordered_def sorted_wrt_map)
  then have "sorted_wrt (\<lambda>x y. key_of h x < key_of h y) ?xs"
    by (rule sorted_wrt_filter)
  then have "sorted_wrt (<) (map (key_of h) ?xs)" by (simp add: sorted_wrt_map)
  moreover have "map (key_of h') ?xs = map (key_of h) ?xs"
    using assms(3,4) by (auto simp: relinked_key_of)
  ultimately have "sorted_wrt (<) (map (key_of h') ?xs)" by (simp only:)
  then show ?thesis using assms(2) by (simp add: ordered_def inorder_remove_tree)
qed

lemma tree_insert_new:
  assumes "linked t lay" "ordered (heap t) lay" "k \<notin> tree_keys t"
  shows "\<exists>t' lay'. tree_insert t k v = Some (Inr Undefined, t') \<and> linked t' lay' \<and>
     ordered (heap t') lay' \<and> numNodes t' = numNodes t + 1 \<and>
     inorder lay' = inorder (ins_tree (key_of (heap t)) k (length (heap t)) lay) \<and>
     set_tree lay' = insert (length (heap t)) (set_tree lay) \<and>
     ins_post (heap t) lay k v (heap t')"
proof (cases "root t")
  case None
  then have lay: "lay = Leaf" using assms(1) by (simp add: linked_def)
  let ?nd = "\<lparr>key = k, val = v, parent = None, leftChild = None, rightChild = None\<rparr>"
  let ?t' = "t\<lparr>heap := heap t @ [?nd], root := Some (length (heap t)),
                numNodes := numNodes t + 1\<rparr>"
  have 1: "tree_insert t k v = Some (Inr Undefined, ?t')"
    using None by (simp add: tree_insert_def new_Node_def)
  have 2: "linked ?t' (Node Leaf (length (heap t)) Leaf)"
    by (simp add: linked_def lookup_append)
  have 3: "ordered (heap ?t') (Node Leaf (length (heap t)) Leaf)"
    by (simp add: ordered_def)
  have 4: "ins_post (heap t) lay k v (heap ?t')"
    by (auto simp: ins_post_def lookup_append key_of_def val_of_def nth_append)
  show ?thesis
    using 1 2 3 4 lay by (intro exI[of _ ?t'] exI[of _ "Node Leaf (length (heap t)) Leaf"]) simp
next
  case (Some r)
  from assms(1) have sh: "shape (heap t) (Some r) None lay" and di: "distinct (inorder lay)"
    using Some by (auto simp: linked_def)
  have kn: "k \<notin> key_of (heap t) ` set_tree lay" using assms(1,3) by (simp add: linked_keys)
  let ?lay' = "ins_tree (key_of (heap t)) k (length (heap t)) lay"
  from node_insert_shape[OF sh di kn, of v] obtain h' where h':
    "node_insert (heap t) r k v = Some (Inr (length (heap t)), h')"
    "shape h' (Some r) None ?lay'" "ins_post (heap t) lay k v h'"
    by blast
  let ?t' = "t\<lparr>heap := h', numNodes := numNodes t + 1\<rparr>"
  have 1: "tree_insert t k v = Some (Inr Undefined, ?t')"
    using Some h'(1) by (simp add: tree_insert_def)
  have fresh: "length (heap t) \<notin> set_tree lay" using shape_less[OF sh] by auto
  have 2: "linked ?t' ?lay'"
    using h'(2) Some di fresh kn by (simp add: linked_def distinct_ins_tree)
  have "sorted_wrt (<) (map (key_of h') (inorder ?lay'))"
  proof (rule sorted_ins_tree)
    show "sorted_wrt (<) (map (key_of (heap t)) (inorder lay))"
      using assms(2) by (simp add: ordered_def)
    show "k \<notin> key_of (heap t) ` set_tree lay" by (rule kn)
    show "key_of h' (length (heap t)) = k" using h'(3) by (simp add: ins_post_def)
    show "key_of h' a = key_of (heap t) a" if "a \<in> set_tree lay" for a
      using h'(3) shape_less[OF sh that] by (simp add: ins_post_def)
  qed
  then have 3: "ordered (heap ?t') ?lay'" by (simp add: ordered_def)
  have 4: "set_tree ?lay' = insert (length (heap t)) (set_tree lay)"
    using kn by (rule set_ins_tree)
  show ?thesis
    using 1 2 3 4 h'(3) by (intro exI[of _ ?t'] exI[of _ ?lay']) simp
qed

lemma tree_insert_dup:
  assumes "linked t lay" "ordered (heap t) lay" "k \<in> tree_keys t"
  shows "tree_insert t k v = Some (Inl (DuplicateKey k), t)"
proof -
  from assms(1,3) obtain a where a: "a \<in> set_tree lay" "k = key_of (heap t) a"
    by (auto simp: linked_keys)
  then obtain r where r: "root t = Some r" using assms(1) by (cases "root t") (auto simp: linked_def)
  have "shape (heap t) (Some r) None lay" using assms(1) r by (simp add: linked_def)
  from node_insert_dup[OF this assms(2) a(1), of v]
  show ?thesis using r a(2) by (simp add: tree_insert_def)
qed

lemma tree_remove_absent:
  assumes "linked t lay" "k \<notin> tree_keys t"
  shows "tree_remove t k = Some (Inl KeyNotFound, t)"
proof (cases "root t")
  case None
  then show ?thesis by (simp add: tree_remove_def tree_get_def)
next
  case (Some r)
  then have "shape (heap t) (Some r) None lay" using assms(1) by (simp add: linked_def)
  moreover have "k \<notin> key_of (heap t) ` set_tree lay" using assms by (simp add: linked_keys)
  ultimately have "node_get (heap t) r k = Some (Inr None)" by (rule node_get_absent)
  then show ?thesis using Some by (simp add: tree_remove_def tree_get_def)
qed

lemma tree_get_present:
  assumes "linked t lay" "ordered (heap t) lay" "a \<in> set_tree lay"
  shows "tree_get t (key_of (heap t) a) = Some (Inr (Some a))"
proof -
  obtain r where r: "root t = Some r" using assms(1,3) by (cases "root t") (auto simp: linked_def)
  then have "shape (heap t) (Some r) None lay" using assms(1) by (simp add: linked_def)
  from node_get_present[OF this assms(2,3)] show ?thesis using r by (simp add: tree_get_def)
qed

lemma tree_remove_present:
  assumes "linked t lay" "ordered (heap t) lay" "a \<in> set_tree lay"
  shows "\<exists>t' rp. tree_remove t (key_of (heap t) a) = Some (Inr Undefined, t') \<and>
     node_remove (heap t) a = Some (Inr rp, heap t') \<and>
     root t' = (if root t = Some a then rp else root t) \<and>
     linked t' (remove_tree a True lay) \<and> ordered (heap t') (remove_tree a True lay) \<and>
     numNodes t' = numNodes t - 1 \<and> relinked (heap t) (heap t') \<and>
     lookup (heap t') a = lookup (heap t) a"
proof -
  from assms(1) have sh: "shape (heap t) (root t) None lay" and di: "distinct (inorder lay)"
    by (auto simp: linked_def)
  from node_remove_shape[OF sh di assms(3)] obtain h' rp where h':
    "node_remove (heap t) a = Some (Inr rp, h')"
    "shape h' (if root t = Some a then rp else root t) None (remove_tree a True lay)"
    "relinked (heap t) h'" "lookup h' a = lookup (heap t) a"
    by blast
  let ?t' = "t\<lparr>heap := h', root := (if root t = Some a then rp else root t),
                numNodes := numNodes t - 1\<rparr>"
  have 1: "tree_remove t (key_of (heap t) a) = Some (Inr Undefined, ?t')"
    using tree_get_present[OF assms] h'(1) by (simp add: tree_remove_def)
  have 2: "linked ?t' (remove_tree a True lay)"
    using h'(2) di by (simp add: linked_def inorder_remove_tree)
  have 3: "ordered (heap ?t') (remove_tree a True lay)"
    using ordered_remove_tree[OF assms(2) di h'(3)] shape_less[OF sh] by simp
  show ?thesis using 1 2 3 h'(1,3,4) by (intro exI[of _ ?t'] exI[of _ rp]) simp
qed

subsection \<open>The example tree\<close>

lemma example_built: "apply_ops new_BinarySearchTree example_ops = Some example_tree"
  by code_simp

lemma example_linked: "linked example_tree example_layout"
  by (simp add: linked_def example_tree_def example_layout_def lookup_def)

lemma example_ordered: "ordered (heap example_tree) example_layout"
  by (simp add: ordered_def example_tree_def example_layout_def key_of_def)

lemma example_well_formed: "well_formed example_tree"
  unfolding well_formed_def using example_linked example_ordered by blast

lemma example_well_linked: "well_linked example_tree"
  unfolding well_linked_def using example_linked by blast

lemma example_nodes: "tree_nodes example_tree = {0, 1, 2, 3, 4, 5}"
  using linked_nodes[OF example_linked] by (auto simp: example_layout_def)

lemma example_keys: "tree_keys example_tree = {5, 2, 8, 3, 7, 9}"
  unfolding tree_keys_def example_nodes
  by (simp add: key_of_def example_tree_def)

subsection \<open>Sequences of operations\<close>

lemma length_ins_tree:
  "k \<notin> kf ` set_tree t \<Longrightarrow> length (inorder (ins_tree kf k n t)) = Suc (length (inorder t))"
  by (induction t) (auto simp: image_Un)

lemma filter_ins_tree:
  "n \<notin> set_tree t \<Longrightarrow> k \<notin> kf ` set_tree t \<Longrightarrow>
   filter (\<lambda>x. x \<noteq> n) (inorder (ins_tree kf k n t)) = inorder t"
proof (induction t)
  case Leaf
  then show ?case by simp
next
  case (Node l a r)
  then have "filter (\<lambda>x. x \<noteq> n) (inorder l) = inorder l"
    "filter (\<lambda>x. x \<noteq> n) (inorder r) = inorder r"
    by (auto simp: filter_id_conv)
  then show ?case using Node by (auto simp: image_Un)
qed

lemma length_filter_distinct:
  "distinct xs \<Longrightarrow> a \<in> set xs \<Longrightarrow> Suc (length (filter (\<lambda>x. x \<noteq> a) xs)) = length xs"
proof (induction xs)
  case Nil
  then show ?case by simp
next
  case (Cons x xs)
  show ?case
  proof (cases "x = a")
    case True
    then have "a \<notin> set xs" using Cons.prems by simp
    then have "filter (\<lambda>x. x \<noteq> a) xs = xs" by (auto simp: filter_id_conv)
    then show ?thesis using True by simp
  next
    case False
    then show ?thesis using Cons by simp
  qed
qed

lemma apply_op_invariant:
  assumes "linked t lay" "ordered (heap t) lay"
  shows "\<exists>t' lay'. apply_op t c = Some t' \<and> linked t' lay' \<and> ordered (heap t') lay' \<and>
     numNodes t' - int (length (inorder lay')) = numNodes t - int (length (inorder lay))"
proof (cases c)
  case (Insert k v)
  show ?thesis
  proof (cases "k \<in> tree_keys t")
    case True
    have "tree_insert t k v = Some (Inl (DuplicateKey k), t)"
      using assms True by (rule tree_insert_dup)
    then have "apply_op t c = Some t" using Insert by (simp add: apply_op_def)
    then show ?thesis using assms by blast
  next
    case False
    from tree_insert_new[OF assms False, of v] obtain t' lay' where t':
      "tree_insert t k v = Some (Inr Undefined, t')" "linked t' lay'" "ordered (heap t') lay'"
      "numNodes t' = numNodes t + 1"
      "inorder lay' = inorder (ins_tree (key_of (heap t)) k (length (heap t)) lay)"
      by blast
    have "k \<notin> key_of (heap t) ` set_tree lay" using False assms(1) by (simp add: linked_keys)
    then have "length (inorder lay') = Suc (length (inorder lay))"
      unfolding t'(5) by (rule length_ins_tree)
    moreover have "apply_op t c = Some t'" using Insert t'(1) by (simp add: apply_op_def)
    ultimately show ?thesis using t'(2,3,4) by (intro exI[of _ t'] exI[of _ lay']) simp
  qed
next
  case (Remove k)
  show ?thesis
  proof (cases "k \<in> tree_keys t")
    case True
    then obtain a where a: "a \<in> set_tree lay" "k = key_of (heap t) a"
      using assms(1) by (auto simp: linked_keys)
    from tree_remove_present[OF assms a(1)] obtain t' where t':
      "tree_remove t k = Some (Inr Undefined, t')" "linked t' (remove_tree a True lay)"
      "ordered (heap t') (remove_tree a True lay)" "numNodes t' = numNodes t - 1"
      using a(2) by blast
    have di: "distinct (inorder lay)" using assms(1) by (simp add: linked_def)
    have "Suc (length (inorder (remove_tree a True lay))) = length (inorder lay)"
      unfolding inorder_remove_tree[OF di] using di a(1) by (intro length_filter_distinct) simp_all
    moreover have "apply_op t c = Some t'" using Remove t'(1) by (simp add: apply_op_def)
    ultimately show ?thesis
      using t'(2,3,4) by (intro exI[of _ t'] exI[of _ "remove_tree a True lay"]) auto
  next
    case False
    have "tree_remove t k = Some (Inl KeyNotFound, t)"
      using assms(1) False by (rule tree_remove_absent)
    then have "apply_op t c = Some t" using Remove by (simp add: apply_op_def)
    then show ?thesis using assms by blast
  qed
qed

lemma apply_ops_invariant:
  assumes "linked t lay" "ordered (heap t) lay"
  shows "\<exists>t' lay'. apply_ops t cs = Some t' \<and> linked t' lay' \<and> ordered (heap t') lay' \<and>
     numNodes t' - int (length (inorder lay')) = numNodes t - int (length (inorder lay))"
  using assms
proof (induction cs arbitrary: t lay)
  case Nil
  then show ?case by auto
next
  case (Cons c cs)
  from apply_op_invariant[OF Cons.prems, of c] obtain t1 lay1 where 1:
    "apply_op t c = Some t1" "linked t1 lay1" "ordered (heap t1) lay1"
    "numNodes t1 - int (length (inorder lay1)) = numNodes t - int (length (inorder lay))"
    by blast
  from Cons.IH[OF 1(2,3)] obtain t' lay' where 2:
    "apply_ops t1 cs = Some t'" "linked t' lay'" "ordered (heap t') lay'"
    "numNodes t' - int (length (inorder lay')) = numNodes t1 - int (length (inorder lay1))"
    by blast
  have "apply_ops t (c # cs) = Some t'" using 1(1) 2(1) by simp
  then show ?case using 2(2,3,4) 1(4) by (intro exI[of _ t'] exI[of _ lay']) simp
qed

subsection \<open>The subtree of a node\<close>

lemma shape_subtree:
  assumes "shape h p par t" "distinct (inorder t)" "n \<in> set_tree t"
  shows "\<exists>l r q. shape h (Some n) q (Node l n r) \<and> set_tree (Node l n r) \<subseteq> set_tree t \<and>
     distinct (inorder (Node l n r)) \<and>
     (p = Some n \<and> q = par \<or>
      (\<exists>x xn. q = Some x \<and> x \<in> set_tree t \<and> x \<notin> set_tree (Node l n r) \<and>
         lookup h x = Some xn \<and>
         (leftChild xn = Some n \<and> rightChild xn \<noteq> Some n \<or>
          leftChild xn \<noteq> Some n \<and> rightChild xn = Some n)))"
  using assms
proof (induction t arbitrary: p par)
  case Leaf
  then show ?case by simp
next
  case (Node L a R)
  from Node.prems(1) obtain an where an: "p = Some a" "lookup h a = Some an" "parent an = par"
    "shape h (leftChild an) (Some a) L" "shape h (rightChild an) (Some a) R"
    by (rule shape_NodeE)
  have dis: "a \<notin> set_tree L" "a \<notin> set_tree R" "set_tree L \<inter> set_tree R = {}"
    "distinct (inorder L)" "distinct (inorder R)"
    using Node.prems(2) by auto
  consider "n = a" | "n \<noteq> a" "n \<in> set_tree L" "n \<notin> set_tree R"
    | "n \<noteq> a" "n \<in> set_tree R" "n \<notin> set_tree L"
    using Node.prems(3) dis(3) by auto
  then show ?case
  proof cases
    case 1
    have "shape h (Some n) par (Node L n R)" using Node.prems(1) an(1) 1 by simp
    then show ?thesis using 1 an(1) Node.prems(2) by blast
  next
    case 2
    have nr: "rightChild an \<noteq> Some n" using an(5) 2(3) shape_root_in by metis
    from Node.IH(1)[OF an(4) dis(4) 2(2)] obtain l r q where s:
      "shape h (Some n) q (Node l n r)" "set_tree (Node l n r) \<subseteq> set_tree L"
      "distinct (inorder (Node l n r))"
      "leftChild an = Some n \<and> q = Some a \<or>
       (\<exists>x xn. q = Some x \<and> x \<in> set_tree L \<and> x \<notin> set_tree (Node l n r) \<and>
         lookup h x = Some xn \<and>
         (leftChild xn = Some n \<and> rightChild xn \<noteq> Some n \<or>
          leftChild xn \<noteq> Some n \<and> rightChild xn = Some n))"
      by blast
    have sub: "set_tree (Node l n r) \<subseteq> set_tree (Node L a R)" using s(2) by auto
    have out: "a \<notin> set_tree (Node l n r)" using s(2) dis(1) by blast
    from s(4) have "\<exists>x xn. q = Some x \<and> x \<in> set_tree (Node L a R) \<and>
         x \<notin> set_tree (Node l n r) \<and> lookup h x = Some xn \<and>
         (leftChild xn = Some n \<and> rightChild xn \<noteq> Some n \<or>
          leftChild xn \<noteq> Some n \<and> rightChild xn = Some n)"
    proof
      assume "leftChild an = Some n \<and> q = Some a"
      then show ?thesis using an(2) nr out by auto
    next
      assume "\<exists>x xn. q = Some x \<and> x \<in> set_tree L \<and> x \<notin> set_tree (Node l n r) \<and>
         lookup h x = Some xn \<and>
         (leftChild xn = Some n \<and> rightChild xn \<noteq> Some n \<or>
          leftChild xn \<noteq> Some n \<and> rightChild xn = Some n)"
      then show ?thesis by auto
    qed
    then show ?thesis using s(1,3) sub by blast
  next
    case 3
    have nl: "leftChild an \<noteq> Some n" using an(4) 3(3) shape_root_in by metis
    from Node.IH(2)[OF an(5) dis(5) 3(2)] obtain l r q where s:
      "shape h (Some n) q (Node l n r)" "set_tree (Node l n r) \<subseteq> set_tree R"
      "distinct (inorder (Node l n r))"
      "rightChild an = Some n \<and> q = Some a \<or>
       (\<exists>x xn. q = Some x \<and> x \<in> set_tree R \<and> x \<notin> set_tree (Node l n r) \<and>
         lookup h x = Some xn \<and>
         (leftChild xn = Some n \<and> rightChild xn \<noteq> Some n \<or>
          leftChild xn \<noteq> Some n \<and> rightChild xn = Some n))"
      by blast
    have sub: "set_tree (Node l n r) \<subseteq> set_tree (Node L a R)" using s(2) by auto
    have out: "a \<notin> set_tree (Node l n r)" using s(2) dis(2) by blast
    from s(4) have "\<exists>x xn. q = Some x \<and> x \<in> set_tree (Node L a R) \<and>
         x \<notin> set_tree (Node l n r) \<and> lookup h x = Some xn \<and>
         (leftChild xn = Some n \<and> rightChild xn \<noteq> Some n \<or>
          leftChild xn \<noteq> Some n \<and> rightChild xn = Some n)"
    proof
      assume "rightChild an = Some n \<and> q = Some a"
      then show ?thesis using an(2) nl out by auto
    next
      assume "\<exists>x xn. q = Some x \<and> x \<in> set_tree R \<and> x \<notin> set_tree (Node l n r) \<and>
         lookup h x = Some xn \<and>
         (leftChild xn = Some n \<and> rightChild xn \<noteq> Some n \<or>
          leftChild xn \<noteq> Some n \<and> rightChild xn = Some n)"
      then show ?thesis by auto
    qed
    then show ?thesis using s(1,3) sub by blast
  qed
qed

lemma set_remove_tree:
  "distinct (inorder t) \<Longrightarrow> set_tree (remove_tree n b t) = set_tree t - {n}"
proof -
  assume "distinct (inorder t)"
  then have "set (inorder (remove_tree n b t)) = set (filter (\<lambda>x. x \<noteq> n) (inorder t))"
    by (simp only: inorder_remove_tree)
  then show ?thesis by auto
qed

subsection \<open>Predecessor and successor\<close>

lemma successor_loop_step:
  "lookup h c = Some cn \<Longrightarrow>
   successor_loop h prev (Some c) =
     (if leftChild cn = Some prev then Some (Inr (Some c)) else successor_loop h c (parent cn))"
  by (subst successor_loop.simps) simp

lemma predecessor_loop_step:
  "lookup h c = Some cn \<Longrightarrow>
   predecessor_loop h prev (Some c) =
     (if rightChild cn = Some prev then Some (Inr (Some c)) else predecessor_loop h c (parent cn))"
  by (subst predecessor_loop.simps) simp

lemma successor_loop_None: "successor_loop h prev None = Some (Inr None)"
  by (subst successor_loop.simps) simp

lemma predecessor_loop_None: "predecessor_loop h prev None = Some (Inr None)"
  by (subst predecessor_loop.simps) simp

text \<open>From the maximum of a subtree, the climb goes on as from the root of the subtree.\<close>

lemma successor_loop_max:
  assumes "shape h (Some c) q t" "distinct (inorder t)" "lookup h (last (inorder t)) = Some mn"
  shows "successor_loop h (last (inorder t)) (parent mn) = successor_loop h c q \<and>
     rightChild mn = None"
  using assms
proof (induction t arbitrary: c q)
  case Leaf
  then show ?case by simp
next
  case (Node sl a sr)
  from Node.prems(1) obtain cn where cn: "c = a" "lookup h a = Some cn" "parent cn = q"
    "shape h (leftChild cn) (Some a) sl" "shape h (rightChild cn) (Some a) sr"
    by (auto split: option.splits)
  show ?case
  proof (cases "sr = Leaf")
    case True
    then have "last (inorder (Node sl a sr)) = a" by simp
    moreover have "rightChild cn = None" using cn(5) True by simp
    ultimately show ?thesis using Node.prems(3) cn(1,2,3) by simp
  next
    case False
    then have m: "last (inorder (Node sl a sr)) = last (inorder sr)"
      by (simp add: inorder_Nil_iff)
    from False cn(5) obtain e where e: "rightChild cn = Some e"
      by (cases "rightChild cn") auto
    have er: "e \<in> set_tree sr" using cn(5) e shape_root_in by metis
    have "e \<notin> set_tree sl" using Node.prems(2) er by auto
    then have nl: "leftChild cn \<noteq> Some e" using cn(4) shape_root_in by metis
    have "distinct (inorder sr)" using Node.prems(2) by simp
    from Node.IH(2)[OF cn(5)[unfolded e] this] Node.prems(3) m
    have ih: "successor_loop h (last (inorder sr)) (parent mn) = successor_loop h e (Some a)"
      "rightChild mn = None"
      by auto
    have "successor_loop h e (Some a) = successor_loop h a q"
      using successor_loop_step[OF cn(2), of e] nl cn(3) by simp
    then show ?thesis using ih m cn(1) by simp
  qed
qed

lemma predecessor_loop_min:
  assumes "shape h (Some c) q t" "distinct (inorder t)" "lookup h (hd (inorder t)) = Some mn"
  shows "predecessor_loop h (hd (inorder t)) (parent mn) = predecessor_loop h c q \<and>
     leftChild mn = None"
  using assms
proof (induction t arbitrary: c q)
  case Leaf
  then show ?case by simp
next
  case (Node sl a sr)
  from Node.prems(1) obtain cn where cn: "c = a" "lookup h a = Some cn" "parent cn = q"
    "shape h (leftChild cn) (Some a) sl" "shape h (rightChild cn) (Some a) sr"
    by (auto split: option.splits)
  show ?case
  proof (cases "sl = Leaf")
    case True
    then have "hd (inorder (Node sl a sr)) = a" by simp
    moreover have "leftChild cn = None" using cn(4) True by simp
    ultimately show ?thesis using Node.prems(3) cn(1,2,3) by simp
  next
    case False
    then have m: "hd (inorder (Node sl a sr)) = hd (inorder sl)"
      by (simp add: inorder_Nil_iff)
    from False cn(4) obtain e where e: "leftChild cn = Some e"
      by (cases "leftChild cn") auto
    have el: "e \<in> set_tree sl" using cn(4) e shape_root_in by metis
    have "e \<notin> set_tree sr" using Node.prems(2) el by auto
    then have nr: "rightChild cn \<noteq> Some e" using cn(5) shape_root_in by metis
    have "distinct (inorder sl)" using Node.prems(2) by simp
    from Node.IH(1)[OF cn(4)[unfolded e] this] Node.prems(3) m
    have ih: "predecessor_loop h (hd (inorder sl)) (parent mn) = predecessor_loop h e (Some a)"
      "leftChild mn = None"
      by auto
    have "predecessor_loop h e (Some a) = predecessor_loop h a q"
      using predecessor_loop_step[OF cn(2), of e] nr cn(3) by simp
    then show ?thesis using ih m cn(1) by simp
  qed
qed

text \<open>
  The climb from a node without left child: it leaves the subtree through its root, and then
  the node is the minimum of the subtree, or it stops at a node of the subtree, and then the
  node is the minimum of the right subtree of that node.
\<close>

lemma predecessor_loop_climb:
  assumes "shape h (Some a) par t" "distinct (inorder t)" "n \<in> set_tree t"
    and "lookup h n = Some nn" "leftChild nn = None"
  shows "(predecessor_loop h n (parent nn) = predecessor_loop h a par \<and> hd (inorder t) = n) \<or>
     (\<exists>p pn d. predecessor_loop h n (parent nn) = Some (Inr (Some p)) \<and>
        lookup h p = Some pn \<and> rightChild pn = Some d \<and> node_min h d = Some (Inr n))"
  using assms(1,2,3)
proof (induction t arbitrary: a par)
  case Leaf
  then show ?case by simp
next
  case (Node L b R)
  from Node.prems(1) obtain an where an: "a = b" "lookup h b = Some an" "parent an = par"
    "shape h (leftChild an) (Some b) L" "shape h (rightChild an) (Some b) R"
    by (auto split: option.splits)
  have dis: "set_tree L \<inter> set_tree R = {}" "distinct (inorder L)" "distinct (inorder R)"
    using Node.prems(2) by auto
  consider "n = b" | "n \<in> set_tree L" | "n \<in> set_tree R" using Node.prems(3) by auto
  then show ?case
  proof cases
    case 1
    then have "an = nn" using an(2) assms(4) by simp
    then have "L = Leaf" using an(4) assms(5) by simp
    then show ?thesis using 1 an(1,3) \<open>an = nn\<close> by simp
  next
    case 2
    then obtain c where c: "leftChild an = Some c" using an(4) by (cases "leftChild an") auto
    have cl: "c \<in> set_tree L" using an(4) c shape_root_in by metis
    then have "c \<notin> set_tree R" using dis(1) by auto
    then have nr: "rightChild an \<noteq> Some c" using an(5) shape_root_in by metis
    have up: "predecessor_loop h c (Some b) = predecessor_loop h b par"
      using predecessor_loop_step[OF an(2), of c] nr an(3) by simp
    have ne: "L \<noteq> Leaf" using 2 by auto
    from Node.IH(1)[OF an(4)[unfolded c] dis(2) 2]
    show ?thesis
    proof
      assume "predecessor_loop h n (parent nn) = predecessor_loop h c (Some b) \<and>
        hd (inorder L) = n"
      then show ?thesis using up an(1) ne by (simp add: inorder_Nil_iff)
    next
      assume "\<exists>p pn d. predecessor_loop h n (parent nn) = Some (Inr (Some p)) \<and>
        lookup h p = Some pn \<and> rightChild pn = Some d \<and> node_min h d = Some (Inr n)"
      then show ?thesis by blast
    qed
  next
    case 3
    then obtain d where d: "rightChild an = Some d" using an(5) by (cases "rightChild an") auto
    have up: "predecessor_loop h d (Some b) = Some (Inr (Some b))"
      using predecessor_loop_step[OF an(2), of d] d by simp
    have mi: "node_min h d = Some (Inr (hd (inorder R)))"
      using an(5)[unfolded d] by (rule node_min_shape)
    from Node.IH(2)[OF an(5)[unfolded d] dis(3) 3]
    show ?thesis
    proof
      assume "predecessor_loop h n (parent nn) = predecessor_loop h d (Some b) \<and>
        hd (inorder R) = n"
      then have "predecessor_loop h n (parent nn) = Some (Inr (Some b)) \<and>
        lookup h b = Some an \<and> rightChild an = Some d \<and> node_min h d = Some (Inr n)"
        using up an(2) d mi by simp
      then show ?thesis by blast
    next
      assume "\<exists>p pn d. predecessor_loop h n (parent nn) = Some (Inr (Some p)) \<and>
        lookup h p = Some pn \<and> rightChild pn = Some d \<and> node_min h d = Some (Inr n)"
      then show ?thesis by blast
    qed
  qed
qed

lemma successor_loop_climb:
  assumes "shape h (Some a) par t" "distinct (inorder t)" "n \<in> set_tree t"
    and "lookup h n = Some nn" "rightChild nn = None"
  shows "(successor_loop h n (parent nn) = successor_loop h a par \<and> last (inorder t) = n) \<or>
     (\<exists>p pn d. successor_loop h n (parent nn) = Some (Inr (Some p)) \<and>
        lookup h p = Some pn \<and> leftChild pn = Some d \<and> node_max h d = Some (Inr n))"
  using assms(1,2,3)
proof (induction t arbitrary: a par)
  case Leaf
  then show ?case by simp
next
  case (Node L b R)
  from Node.prems(1) obtain an where an: "a = b" "lookup h b = Some an" "parent an = par"
    "shape h (leftChild an) (Some b) L" "shape h (rightChild an) (Some b) R"
    by (auto split: option.splits)
  have dis: "set_tree L \<inter> set_tree R = {}" "distinct (inorder L)" "distinct (inorder R)"
    using Node.prems(2) by auto
  consider "n = b" | "n \<in> set_tree R" | "n \<in> set_tree L" using Node.prems(3) by auto
  then show ?case
  proof cases
    case 1
    then have "an = nn" using an(2) assms(4) by simp
    then have "R = Leaf" using an(5) assms(5) by simp
    then show ?thesis using 1 an(1,3) \<open>an = nn\<close> by simp
  next
    case 2
    then obtain c where c: "rightChild an = Some c" using an(5) by (cases "rightChild an") auto
    have cr: "c \<in> set_tree R" using an(5) c shape_root_in by metis
    then have "c \<notin> set_tree L" using dis(1) by auto
    then have nl: "leftChild an \<noteq> Some c" using an(4) shape_root_in by metis
    have up: "successor_loop h c (Some b) = successor_loop h b par"
      using successor_loop_step[OF an(2), of c] nl an(3) by simp
    have ne: "R \<noteq> Leaf" using 2 by auto
    from Node.IH(2)[OF an(5)[unfolded c] dis(3) 2]
    show ?thesis
    proof
      assume "successor_loop h n (parent nn) = successor_loop h c (Some b) \<and>
        last (inorder R) = n"
      then show ?thesis using up an(1) ne by (simp add: inorder_Nil_iff)
    next
      assume "\<exists>p pn d. successor_loop h n (parent nn) = Some (Inr (Some p)) \<and>
        lookup h p = Some pn \<and> leftChild pn = Some d \<and> node_max h d = Some (Inr n)"
      then show ?thesis by blast
    qed
  next
    case 3
    then obtain d where d: "leftChild an = Some d" using an(4) by (cases "leftChild an") auto
    have up: "successor_loop h d (Some b) = Some (Inr (Some b))"
      using successor_loop_step[OF an(2), of d] d by simp
    have mx: "node_max h d = Some (Inr (last (inorder L)))"
      using an(4)[unfolded d] by (rule node_max_shape)
    from Node.IH(1)[OF an(4)[unfolded d] dis(2) 3]
    show ?thesis
    proof
      assume "successor_loop h n (parent nn) = successor_loop h d (Some b) \<and>
        last (inorder L) = n"
      then have "successor_loop h n (parent nn) = Some (Inr (Some b)) \<and>
        lookup h b = Some an \<and> leftChild an = Some d \<and> node_max h d = Some (Inr n)"
        using up an(2) d mx by simp
      then show ?thesis by blast
    next
      assume "\<exists>p pn d. successor_loop h n (parent nn) = Some (Inr (Some p)) \<and>
        lookup h p = Some pn \<and> leftChild pn = Some d \<and> node_max h d = Some (Inr n)"
      then show ?thesis by blast
    qed
  qed
qed

subsection \<open>A subtree within an ordered tree\<close>

lemma shape_root: "shape h p par t \<Longrightarrow> p = (case t of Leaf \<Rightarrow> None | Node l a r \<Rightarrow> Some a)"
  by (cases t) auto

lemma shape_unique: "shape h p q s \<Longrightarrow> shape h p q' s' \<Longrightarrow> s = s'"
proof (induction s arbitrary: p q q' s')
  case Leaf
  then show ?case by simp
next
  case (Node l a r)
  from Node.prems(1) obtain nd where nd: "p = Some a" "lookup h a = Some nd"
    "shape h (leftChild nd) (Some a) l" "shape h (rightChild nd) (Some a) r"
    by (rule shape_NodeE)
  from Node.prems(2) nd(1) obtain l' r' where s': "s' = Node l' a r'"
    by (auto simp: shape_Some)
  from Node.prems(2)[unfolded s'] nd(2) have
    "shape h (leftChild nd) (Some a) l'" "shape h (rightChild nd) (Some a) r'"
    by (auto split: option.splits)
  then have "l = l'" "r = r'" using Node.IH nd(3,4) by blast+
  then show ?case using s' by simp
qed

text \<open>
  In an ordered tree, the subtree of a node is ordered, and a node outside this subtree has
  its key below all the keys of the subtree or above all of them.
\<close>

lemma ordered_subtree:
  assumes "shape h p par t" "ordered h t" "n \<in> set_tree t"
  shows "\<exists>l r q. shape h (Some n) q (Node l n r) \<and> ordered h (Node l n r) \<and>
     set_tree (Node l n r) \<subseteq> set_tree t \<and>
     (\<forall>a\<in>set_tree t. a \<notin> set_tree (Node l n r) \<longrightarrow>
        (\<forall>x\<in>set_tree (Node l n r). key_of h a < key_of h x) \<or>
        (\<forall>x\<in>set_tree (Node l n r). key_of h x < key_of h a))"
  using assms
proof (induction t arbitrary: p par)
  case Leaf
  then show ?case by simp
next
  case (Node L b R)
  from Node.prems(1) obtain bn where bn: "p = Some b" "lookup h b = Some bn"
    "shape h (leftChild bn) (Some b) L" "shape h (rightChild bn) (Some b) R"
    by (rule shape_NodeE)
  from Node.prems(2) have ord: "ordered h L" "ordered h R"
    "\<forall>x\<in>set_tree L. key_of h x < key_of h b" "\<forall>y\<in>set_tree R. key_of h b < key_of h y"
    "\<forall>x\<in>set_tree L. \<forall>y\<in>set_tree R. key_of h x < key_of h y"
    by (auto simp: ordered_Node)
  consider "n = b" | "n \<in> set_tree L" | "n \<in> set_tree R" using Node.prems(3) by auto
  then show ?case
  proof cases
    case 1
    have "shape h (Some n) par (Node L n R)" using Node.prems(1) bn(1) 1 by simp
    moreover have "ordered h (Node L n R)" using Node.prems(2) 1 by simp
    ultimately show ?thesis using 1 by blast
  next
    case 2
    from Node.IH(1)[OF bn(3) ord(1) 2] obtain l r q where s:
      "shape h (Some n) q (Node l n r)" "ordered h (Node l n r)"
      "set_tree (Node l n r) \<subseteq> set_tree L"
      "\<forall>a\<in>set_tree L. a \<notin> set_tree (Node l n r) \<longrightarrow>
        (\<forall>x\<in>set_tree (Node l n r). key_of h a < key_of h x) \<or>
        (\<forall>x\<in>set_tree (Node l n r). key_of h x < key_of h a)"
      by blast
    have up: "\<forall>x\<in>set_tree (Node l n r). key_of h x < key_of h a"
      if "a = b \<or> a \<in> set_tree R" for a
    proof
      fix x assume "x \<in> set_tree (Node l n r)"
      then have x: "x \<in> set_tree L" using s(3) by blast
      show "key_of h x < key_of h a"
        using that x ord(3,5) by auto
    qed
    have "\<forall>a\<in>set_tree (Node L b R). a \<notin> set_tree (Node l n r) \<longrightarrow>
        (\<forall>x\<in>set_tree (Node l n r). key_of h a < key_of h x) \<or>
        (\<forall>x\<in>set_tree (Node l n r). key_of h x < key_of h a)"
    proof (intro ballI impI)
      fix a assume a: "a \<in> set_tree (Node L b R)" "a \<notin> set_tree (Node l n r)"
      then consider "a = b \<or> a \<in> set_tree R" | "a \<in> set_tree L" by auto
      then show "(\<forall>x\<in>set_tree (Node l n r). key_of h a < key_of h x) \<or>
        (\<forall>x\<in>set_tree (Node l n r). key_of h x < key_of h a)"
      proof cases
        case 1
        then show ?thesis using up by blast
      next
        case 2
        then show ?thesis using s(4) a(2) by blast
      qed
    qed
    moreover have "set_tree (Node l n r) \<subseteq> set_tree (Node L b R)" using s(3) by auto
    ultimately show ?thesis using s(1,2) by blast
  next
    case 3
    from Node.IH(2)[OF bn(4) ord(2) 3] obtain l r q where s:
      "shape h (Some n) q (Node l n r)" "ordered h (Node l n r)"
      "set_tree (Node l n r) \<subseteq> set_tree R"
      "\<forall>a\<in>set_tree R. a \<notin> set_tree (Node l n r) \<longrightarrow>
        (\<forall>x\<in>set_tree (Node l n r). key_of h a < key_of h x) \<or>
        (\<forall>x\<in>set_tree (Node l n r). key_of h x < key_of h a)"
      by blast
    have down: "\<forall>x\<in>set_tree (Node l n r). key_of h a < key_of h x"
      if "a = b \<or> a \<in> set_tree L" for a
    proof
      fix x assume "x \<in> set_tree (Node l n r)"
      then have x: "x \<in> set_tree R" using s(3) by blast
      show "key_of h a < key_of h x"
        using that x ord(4,5) by auto
    qed
    have "\<forall>a\<in>set_tree (Node L b R). a \<notin> set_tree (Node l n r) \<longrightarrow>
        (\<forall>x\<in>set_tree (Node l n r). key_of h a < key_of h x) \<or>
        (\<forall>x\<in>set_tree (Node l n r). key_of h x < key_of h a)"
    proof (intro ballI impI)
      fix a assume a: "a \<in> set_tree (Node L b R)" "a \<notin> set_tree (Node l n r)"
      then consider "a = b \<or> a \<in> set_tree L" | "a \<in> set_tree R" by auto
      then show "(\<forall>x\<in>set_tree (Node l n r). key_of h a < key_of h x) \<or>
        (\<forall>x\<in>set_tree (Node l n r). key_of h x < key_of h a)"
      proof cases
        case 1
        then show ?thesis using down by blast
      next
        case 2
        then show ?thesis using s(4) a(2) by blast
      qed
    qed
    moreover have "set_tree (Node l n r) \<subseteq> set_tree (Node L b R)" using s(3) by auto
    ultimately show ?thesis using s(1,2) by blast
  qed
qed

lemma ordered_last_greatest:
  assumes "ordered h t" "a \<in> set_tree t"
  shows "key_of h a \<le> key_of h (last (inorder t))"
  using assms
proof (induction t)
  case Leaf
  then show ?case by simp
next
  case (Node l b r)
  from Node.prems(1) have ord: "ordered h r"
    "\<forall>x\<in>set_tree l. key_of h x < key_of h b" "\<forall>y\<in>set_tree r. key_of h b < key_of h y"
    "\<forall>x\<in>set_tree l. \<forall>y\<in>set_tree r. key_of h x < key_of h y"
    by (auto simp: ordered_Node)
  show ?case
  proof (cases "r = Leaf")
    case True
    then show ?thesis using Node.prems(2) ord(2) by (auto simp: less_imp_le)
  next
    case False
    then have m: "last (inorder (Node l b r)) = last (inorder r)"
      by (simp add: inorder_Nil_iff)
    have mr: "last (inorder r) \<in> set_tree r" using False by (rule last_in_tree)
    consider "a = b" | "a \<in> set_tree l" | "a \<in> set_tree r" using Node.prems(2) by auto
    then show ?thesis
    proof cases
      case 1
      then show ?thesis using m mr ord(3) by (auto simp: less_imp_le)
    next
      case 2
      then show ?thesis using m mr ord(4) by (auto simp: less_imp_le)
    next
      case 3
      then show ?thesis using m Node.IH(2)[OF ord(1)] by simp
    qed
  qed
qed

lemma ordered_hd_least:
  assumes "ordered h t" "a \<in> set_tree t"
  shows "key_of h (hd (inorder t)) \<le> key_of h a"
  using assms
proof (induction t)
  case Leaf
  then show ?case by simp
next
  case (Node l b r)
  from Node.prems(1) have ord: "ordered h l"
    "\<forall>x\<in>set_tree l. key_of h x < key_of h b" "\<forall>y\<in>set_tree r. key_of h b < key_of h y"
    "\<forall>x\<in>set_tree l. \<forall>y\<in>set_tree r. key_of h x < key_of h y"
    by (auto simp: ordered_Node)
  show ?case
  proof (cases "l = Leaf")
    case True
    then show ?thesis using Node.prems(2) ord(3) by (auto simp: less_imp_le)
  next
    case False
    then have m: "hd (inorder (Node l b r)) = hd (inorder l)"
      by (simp add: inorder_Nil_iff)
    have ml: "hd (inorder l) \<in> set_tree l" using False by (rule hd_in_tree)
    consider "a = b" | "a \<in> set_tree r" | "a \<in> set_tree l" using Node.prems(2) by auto
    then show ?thesis
    proof cases
      case 1
      then show ?thesis using m ml ord(2) by (auto simp: less_imp_le)
    next
      case 2
      then show ?thesis using m ml ord(4) by (auto simp: less_imp_le)
    next
      case 3
      then show ?thesis using m Node.IH(1)[OF ord(1)] by simp
    qed
  qed
qed

subsection \<open>The replacement of a node with two children\<close>

lemma node_remove_two_children:
  assumes sh: "shape h p None lay" and di: "distinct (inorder lay)" and n: "n \<in> set_tree lay"
    and nn: "lookup h n = Some nn" "leftChild nn = Some l" "rightChild nn = Some r"
    and ord: "ordered h lay"
  shows "\<exists>m h' mn b. node_remove h n = Some (Inr (Some m), h') \<and>
     lookup h' m = Some mn \<and> parent mn = parent nn \<and> is_root_or_left h n nn = Inr b \<and>
     reach h' (Some m) = reach h (Some n) - {n} \<and>
     (p = Some n \<longrightarrow> b) \<and>
     (\<forall>x xn. parent nn = Some x \<longrightarrow> lookup h x = Some xn \<longrightarrow>
        (leftChild xn = Some n \<longleftrightarrow> b) \<and> (rightChild xn = Some n \<longleftrightarrow> \<not> b)) \<and>
     (\<forall>x xn. parent nn = Some x \<longrightarrow> lookup h x = Some xn \<longrightarrow>
        lookup h' x = Some (if leftChild xn = Some n then xn\<lparr>leftChild := Some m\<rparr>
                            else xn\<lparr>rightChild := Some m\<rparr>)) \<and>
     (b \<longrightarrow> node_max h l = Some (Inr m) \<and> rightChild mn = Some r \<and>
        (\<forall>ln. lookup h l = Some ln \<longrightarrow> leftChild mn = (if m = l then leftChild ln else Some l)) \<and>
        m \<in> reach h (Some l) \<and> (\<forall>a\<in>reach h (Some l). key_of h a \<le> key_of h m) \<and>
        key_of h m < key_of h n \<and>
        (\<forall>a\<in>set_tree lay. key_of h a < key_of h n \<longrightarrow> key_of h a \<le> key_of h m)) \<and>
     (\<not> b \<longrightarrow> node_min h r = Some (Inr m) \<and> leftChild mn = Some l \<and>
        (\<forall>rn. lookup h r = Some rn \<longrightarrow> rightChild mn = (if m = r then rightChild rn else Some r)) \<and>
        m \<in> reach h (Some r) \<and> (\<forall>a\<in>reach h (Some r). key_of h m \<le> key_of h a) \<and>
        key_of h n < key_of h m \<and>
        (\<forall>a\<in>set_tree lay. key_of h n < key_of h a \<longrightarrow> key_of h m \<le> key_of h a))"
proof -
  from shape_subtree[OF sh di n] obtain sl sr q where s:
    "shape h (Some n) q (Node sl n sr)" "set_tree (Node sl n sr) \<subseteq> set_tree lay"
    "distinct (inorder (Node sl n sr))"
    "p = Some n \<and> q = None \<or>
      (\<exists>x xn. q = Some x \<and> x \<in> set_tree lay \<and> x \<notin> set_tree (Node sl n sr) \<and>
         lookup h x = Some xn \<and>
         (leftChild xn = Some n \<and> rightChild xn \<noteq> Some n \<or>
          leftChild xn \<noteq> Some n \<and> rightChild xn = Some n))"
    by blast
  from s(1) nn have q: "parent nn = q" and sl: "shape h (Some l) (Some n) sl"
    and sr: "shape h (Some r) (Some n) sr"
    by (auto split: option.splits)
  from sl obtain sll slr where sl': "sl = Node sll l slr" by (auto simp: shape_Some)
  from sr obtain srl srr where sr': "sr = Node srl r srr" by (auto simp: shape_Some)
  from ordered_subtree[OF sh ord n] obtain l0 r0 q0 where o:
    "shape h (Some n) q0 (Node l0 n r0)" "ordered h (Node l0 n r0)"
    "\<forall>a\<in>set_tree lay. a \<notin> set_tree (Node l0 n r0) \<longrightarrow>
        (\<forall>x\<in>set_tree (Node l0 n r0). key_of h a < key_of h x) \<or>
        (\<forall>x\<in>set_tree (Node l0 n r0). key_of h x < key_of h a)"
    by blast
  have same: "Node l0 n r0 = Node sl n sr" using o(1) s(1) by (rule shape_unique)
  have os: "ordered h sl" "ordered h sr" "\<forall>x\<in>set_tree sl. key_of h x < key_of h n"
    "\<forall>y\<in>set_tree sr. key_of h n < key_of h y"
    using o(2)[unfolded same] by (auto simp: ordered_Node)
  have out: "(\<forall>x\<in>set_tree (Node sl n sr). key_of h a < key_of h x) \<or>
        (\<forall>x\<in>set_tree (Node sl n sr). key_of h x < key_of h a)"
    if "a \<in> set_tree lay" "a \<notin> set_tree (Node sl n sr)" for a
    using o(3)[unfolded same] that by blast
  have rl: "reach h (Some l) = set_tree sl" using sl by (rule reach_shape)
  have rr: "reach h (Some r) = set_tree sr" using sr by (rule reach_shape)
  define b where "b = (q = None \<or> (\<exists>x xn. q = Some x \<and> lookup h x = Some xn \<and> leftChild xn = Some n))"
  have pq: "q = None" if "p = Some n"
  proof (rule ccontr)
    assume "q \<noteq> None"
    then obtain x where "q = Some x" "x \<in> set_tree lay" using s(4) by auto
    moreover have "q = None" using sh s(1) that by (auto simp: shape_Some)
    ultimately show False by simp
  qed
  have pa: "x \<notin> set_tree (Node sl n sr) \<and>
      (\<exists>pn. lookup h x = Some pn \<and> (leftChild pn = Some n) = b)" if "q = Some x" for x
    using s(4) that pq unfolding b_def by auto
  have ro: "b" if "q = None" using that by (simp add: b_def)
  have pb: "p = Some n \<longrightarrow> b" using pq ro by blast
  have lr: "\<forall>x xn. parent nn = Some x \<longrightarrow> lookup h x = Some xn \<longrightarrow>
        (leftChild xn = Some n \<longleftrightarrow> b) \<and> (rightChild xn = Some n \<longleftrightarrow> \<not> b)"
    using s(4) q pq unfolding b_def by auto
  from node_remove_local[OF s(1) s(3) pa ro] obtain h' rp where h':
    "node_remove h n = Some (Inr rp, h')" "shape h' rp q (splice b (Node sl n sr))"
    "spliced h n q (set_tree (Node sl n sr)) rp h'"
    by blast
  have irl: "is_root_or_left h n nn = Inr b"
  proof (cases q)
    case None
    then show ?thesis using q ro by (simp add: is_root_or_left_def)
  next
    case (Some x)
    then show ?thesis using q pa[OF Some] by (auto simp: is_root_or_left_def)
  qed
  have "set (inorder (splice b (Node sl n sr))) = set (inorder sl @ inorder sr)"
    by (simp only: inorder_splice)
  then have "set_tree (splice b (Node sl n sr)) = set_tree (Node sl n sr) - {n}"
    using s(3) by auto
  then have rch: "reach h' rp = reach h (Some n) - {n}"
    using reach_shape[OF h'(2)] reach_shape[OF s(1)] by simp
  have par: "\<forall>x xn. parent nn = Some x \<longrightarrow> lookup h x = Some xn \<longrightarrow>
        lookup h' x = Some (if leftChild xn = Some n then xn\<lparr>leftChild := rp\<rparr>
                            else xn\<lparr>rightChild := rp\<rparr>)"
    using h'(3) q by (simp add: spliced_def)
  show ?thesis
  proof (cases b)
    case True
    let ?m = "last (inorder sl)"
    have sp: "splice b (Node sl n sr) = Node (del_max sl) ?m sr"
      using True sl' sr' by simp
    from h'(2)[unfolded sp] obtain mn where mn: "rp = Some ?m" "lookup h' ?m = Some mn"
      "parent mn = q" "shape h' (leftChild mn) (Some ?m) (del_max sl)"
      "shape h' (rightChild mn) (Some ?m) sr"
      by (rule shape_NodeE)
    have rc: "rightChild mn = Some r" using mn(5) sr' by (auto split: option.splits)
    have mx: "node_max h l = Some (Inr ?m)" using sl by (rule node_max_shape)
    have lc: "leftChild mn = (if ?m = l then leftChild ln else Some l)"
      if ln: "lookup h l = Some ln" for ln
    proof (cases "slr = Leaf")
      case True
      then have m: "?m = l" "del_max sl = sll" using sl' by simp_all
      have "shape h (leftChild ln) (Some l) sll"
        using sl[unfolded sl'] ln by (auto split: option.splits)
      then have "leftChild ln = (case sll of Leaf \<Rightarrow> None | Node x a y \<Rightarrow> Some a)"
        by (rule shape_root)
      moreover have "leftChild mn = (case sll of Leaf \<Rightarrow> None | Node x a y \<Rightarrow> Some a)"
        using shape_root[OF mn(4)] m(2) by simp
      ultimately show ?thesis using m(1) by simp
    next
      case False
      then have d: "del_max sl = Node sll l (del_max slr)" using sl' by simp
      have "?m = last (inorder slr)" using sl' False by (simp add: inorder_Nil_iff)
      then have "?m \<in> set_tree slr" using False by (simp add: last_in_tree)
      moreover have "l \<notin> set_tree slr" using s(3) sl' by auto
      ultimately have "?m \<noteq> l" by auto
      moreover have "leftChild mn = Some l" using shape_root[OF mn(4)] d by simp
      ultimately show ?thesis by simp
    qed
    have ne: "sl \<noteq> Leaf" using sl' by simp
    have mi: "?m \<in> set_tree sl" using ne by (rule last_in_tree)
    have g1: "\<forall>a\<in>set_tree sl. key_of h a \<le> key_of h ?m"
      using os(1) ordered_last_greatest by blast
    have g2: "key_of h ?m < key_of h n" using os(3) mi by blast
    have g3: "key_of h a \<le> key_of h ?m" if a: "a \<in> set_tree lay" "key_of h a < key_of h n" for a
    proof (cases "a \<in> set_tree (Node sl n sr)")
      case True
      then consider "a = n" | "a \<in> set_tree sl" | "a \<in> set_tree sr" by auto
      then show ?thesis
      proof cases
        case 1
        then show ?thesis using a(2) by simp
      next
        case 2
        then show ?thesis using g1 by blast
      next
        case 3
        then have "key_of h n < key_of h a" using os(4) by blast
        then show ?thesis using a(2) by simp
      qed
    next
      case False
      from out[OF a(1) False] show ?thesis
      proof
        assume "\<forall>x\<in>set_tree (Node sl n sr). key_of h a < key_of h x"
        then have "key_of h a < key_of h ?m" using mi by simp
        then show ?thesis by simp
      next
        assume "\<forall>x\<in>set_tree (Node sl n sr). key_of h x < key_of h a"
        then have "key_of h n < key_of h a" by simp
        then show ?thesis using a(2) by simp
      qed
    qed
    have all: "node_max h l = Some (Inr ?m) \<and> rightChild mn = Some r \<and>
        (\<forall>ln. lookup h l = Some ln \<longrightarrow> leftChild mn = (if ?m = l then leftChild ln else Some l)) \<and>
        ?m \<in> reach h (Some l) \<and> (\<forall>a\<in>reach h (Some l). key_of h a \<le> key_of h ?m) \<and>
        key_of h ?m < key_of h n \<and>
        (\<forall>a\<in>set_tree lay. key_of h a < key_of h n \<longrightarrow> key_of h a \<le> key_of h ?m)"
      using mx rc lc mi g1 g2 g3 unfolding rl by blast
    show ?thesis
      using h'(1) mn(1,2,3) q irl par True pb lr all rch
      by (intro exI[of _ ?m] exI[of _ h'] exI[of _ mn] exI[of _ b]) simp
  next
    case False
    let ?m = "hd (inorder sr)"
    have sp: "splice b (Node sl n sr) = Node sl ?m (del_min sr)"
      using False sl' sr' by simp
    from h'(2)[unfolded sp] obtain mn where mn: "rp = Some ?m" "lookup h' ?m = Some mn"
      "parent mn = q" "shape h' (leftChild mn) (Some ?m) sl"
      "shape h' (rightChild mn) (Some ?m) (del_min sr)"
      by (rule shape_NodeE)
    have lc: "leftChild mn = Some l" using mn(4) sl' by (auto split: option.splits)
    have mi: "node_min h r = Some (Inr ?m)" using sr by (rule node_min_shape)
    have rc: "rightChild mn = (if ?m = r then rightChild rn else Some r)"
      if rn: "lookup h r = Some rn" for rn
    proof (cases "srl = Leaf")
      case True
      then have m: "?m = r" "del_min sr = srr" using sr' by simp_all
      have "shape h (rightChild rn) (Some r) srr"
        using sr[unfolded sr'] rn by (auto split: option.splits)
      then have "rightChild rn = (case srr of Leaf \<Rightarrow> None | Node x a y \<Rightarrow> Some a)"
        by (rule shape_root)
      moreover have "rightChild mn = (case srr of Leaf \<Rightarrow> None | Node x a y \<Rightarrow> Some a)"
        using shape_root[OF mn(5)] m(2) by simp
      ultimately show ?thesis using m(1) by simp
    next
      case False
      then have d: "del_min sr = Node (del_min srl) r srr" using sr' by simp
      have "?m = hd (inorder srl)" using sr' False by (simp add: inorder_Nil_iff)
      then have "?m \<in> set_tree srl" using False by (simp add: hd_in_tree)
      moreover have "r \<notin> set_tree srl" using s(3) sr' by auto
      ultimately have "?m \<noteq> r" by auto
      moreover have "rightChild mn = Some r" using shape_root[OF mn(5)] d by simp
      ultimately show ?thesis by simp
    qed
    have ne: "sr \<noteq> Leaf" using sr' by simp
    have ms: "?m \<in> set_tree sr" using ne by (rule hd_in_tree)
    have g1: "\<forall>a\<in>set_tree sr. key_of h ?m \<le> key_of h a"
      using os(2) ordered_hd_least by blast
    have g2: "key_of h n < key_of h ?m" using os(4) ms by blast
    have g3: "key_of h ?m \<le> key_of h a" if a: "a \<in> set_tree lay" "key_of h n < key_of h a" for a
    proof (cases "a \<in> set_tree (Node sl n sr)")
      case True
      then consider "a = n" | "a \<in> set_tree sr" | "a \<in> set_tree sl" by auto
      then show ?thesis
      proof cases
        case 1
        then show ?thesis using a(2) by simp
      next
        case 2
        then show ?thesis using g1 by blast
      next
        case 3
        then have "key_of h a < key_of h n" using os(3) by blast
        then show ?thesis using a(2) by simp
      qed
    next
      case False
      from out[OF a(1) False] show ?thesis
      proof
        assume "\<forall>x\<in>set_tree (Node sl n sr). key_of h a < key_of h x"
        then have "key_of h a < key_of h n" by simp
        then show ?thesis using a(2) by simp
      next
        assume "\<forall>x\<in>set_tree (Node sl n sr). key_of h x < key_of h a"
        then have "key_of h ?m < key_of h a" using ms by simp
        then show ?thesis by simp
      qed
    qed
    have all: "node_min h r = Some (Inr ?m) \<and> leftChild mn = Some l \<and>
        (\<forall>rn. lookup h r = Some rn \<longrightarrow> rightChild mn = (if ?m = r then rightChild rn else Some r)) \<and>
        ?m \<in> reach h (Some r) \<and> (\<forall>a\<in>reach h (Some r). key_of h ?m \<le> key_of h a) \<and>
        key_of h n < key_of h ?m \<and>
        (\<forall>a\<in>set_tree lay. key_of h n < key_of h a \<longrightarrow> key_of h ?m \<le> key_of h a)"
      using mi lc rc ms g1 g2 g3 unfolding rr by blast
    show ?thesis
      using h'(1) mn(1,2,3) q irl par False pb lr all rch
      by (intro exI[of _ ?m] exI[of _ h'] exI[of _ mn] exI[of _ b]) simp
  qed
qed

subsection \<open>Predecessor and successor undo each other\<close>

lemma predecessor_then_successor:
  assumes sh: "shape h p None lay" and di: "distinct (inorder lay)" and n: "n \<in> set_tree lay"
  shows "(\<exists>r. predecessor h n = Some (Inr r)) \<and>
     (\<forall>m. predecessor h n = Some (Inr (Some m)) \<longrightarrow> successor h m = Some (Inr (Some n)))"
proof -
  obtain nn where nn: "lookup h n = Some nn"
    using less_lookup[OF shape_less[OF sh n]] by blast
  show ?thesis
  proof (cases "leftChild nn")
    case None
    obtain a where a: "p = Some a" using sh n by (cases p) auto
    have pr: "predecessor h n = predecessor_loop h n (parent nn)"
      using nn None by (simp add: predecessor_def)
    from predecessor_loop_climb[OF sh[unfolded a] di n nn None]
    show ?thesis
    proof
      assume "predecessor_loop h n (parent nn) = predecessor_loop h a None \<and>
        hd (inorder lay) = n"
      then have "predecessor h n = Some (Inr None)"
        using pr by (simp add: predecessor_loop_None)
      then show ?thesis by simp
    next
      assume "\<exists>q qn d. predecessor_loop h n (parent nn) = Some (Inr (Some q)) \<and>
        lookup h q = Some qn \<and> rightChild qn = Some d \<and> node_min h d = Some (Inr n)"
      then obtain q qn d where q: "predecessor_loop h n (parent nn) = Some (Inr (Some q))"
        "lookup h q = Some qn" "rightChild qn = Some d" "node_min h d = Some (Inr n)"
        by blast
      have "successor h q = Some (Inr (Some n))"
        using q(2,3,4) by (simp add: successor_def)
      then show ?thesis using pr q(1) by simp
    qed
  next
    case (Some c)
    from shape_subtree[OF sh di n] obtain sl sr q where s:
      "shape h (Some n) q (Node sl n sr)" "set_tree (Node sl n sr) \<subseteq> set_tree lay"
      "distinct (inorder (Node sl n sr))"
      by blast
    from s(1) nn Some have sl: "shape h (Some c) (Some n) sl" by (auto split: option.splits)
    have dl: "distinct (inorder sl)" using s(3) by simp
    let ?m = "last (inorder sl)"
    have mx: "node_max h c = Some (Inr ?m)" using sl by (rule node_max_shape)
    have pr: "predecessor h n = Some (Inr (Some ?m))"
      using nn Some mx by (simp add: predecessor_def)
    have "sl \<noteq> Leaf" using sl by auto
    then have "?m \<in> set_tree sl" by (rule last_in_tree)
    then obtain mn where mn: "lookup h ?m = Some mn"
      using less_lookup[OF shape_less[OF sl]] by blast
    from successor_loop_max[OF sl dl mn]
    have up: "successor_loop h ?m (parent mn) = successor_loop h c (Some n)"
      "rightChild mn = None"
      by auto
    have "successor_loop h c (Some n) = Some (Inr (Some n))"
      using successor_loop_step[OF nn, of c] Some by simp
    then have "successor h ?m = Some (Inr (Some n))"
      using mn up by (simp add: successor_def)
    then show ?thesis using pr by simp
  qed
qed

lemma successor_then_predecessor:
  assumes sh: "shape h p None lay" and di: "distinct (inorder lay)" and n: "n \<in> set_tree lay"
  shows "(\<exists>r. successor h n = Some (Inr r)) \<and>
     (\<forall>m. successor h n = Some (Inr (Some m)) \<longrightarrow> predecessor h m = Some (Inr (Some n)))"
proof -
  obtain nn where nn: "lookup h n = Some nn"
    using less_lookup[OF shape_less[OF sh n]] by blast
  show ?thesis
  proof (cases "rightChild nn")
    case None
    obtain a where a: "p = Some a" using sh n by (cases p) auto
    have su: "successor h n = successor_loop h n (parent nn)"
      using nn None by (simp add: successor_def)
    from successor_loop_climb[OF sh[unfolded a] di n nn None]
    show ?thesis
    proof
      assume "successor_loop h n (parent nn) = successor_loop h a None \<and>
        last (inorder lay) = n"
      then have "successor h n = Some (Inr None)"
        using su by (simp add: successor_loop_None)
      then show ?thesis by simp
    next
      assume "\<exists>q qn d. successor_loop h n (parent nn) = Some (Inr (Some q)) \<and>
        lookup h q = Some qn \<and> leftChild qn = Some d \<and> node_max h d = Some (Inr n)"
      then obtain q qn d where q: "successor_loop h n (parent nn) = Some (Inr (Some q))"
        "lookup h q = Some qn" "leftChild qn = Some d" "node_max h d = Some (Inr n)"
        by blast
      have "predecessor h q = Some (Inr (Some n))"
        using q(2,3,4) by (simp add: predecessor_def)
      then show ?thesis using su q(1) by simp
    qed
  next
    case (Some c)
    from shape_subtree[OF sh di n] obtain sl sr q where s:
      "shape h (Some n) q (Node sl n sr)" "set_tree (Node sl n sr) \<subseteq> set_tree lay"
      "distinct (inorder (Node sl n sr))"
      by blast
    from s(1) nn Some have sr: "shape h (Some c) (Some n) sr" by (auto split: option.splits)
    have dr: "distinct (inorder sr)" using s(3) by simp
    let ?m = "hd (inorder sr)"
    have mi: "node_min h c = Some (Inr ?m)" using sr by (rule node_min_shape)
    have su: "successor h n = Some (Inr (Some ?m))"
      using nn Some mi by (simp add: successor_def)
    have "sr \<noteq> Leaf" using sr by auto
    then have "?m \<in> set_tree sr" by (rule hd_in_tree)
    then obtain mn where mn: "lookup h ?m = Some mn"
      using less_lookup[OF shape_less[OF sr]] by blast
    from predecessor_loop_min[OF sr dr mn]
    have up: "predecessor_loop h ?m (parent mn) = predecessor_loop h c (Some n)"
      "leftChild mn = None"
      by auto
    have "predecessor_loop h c (Some n) = Some (Inr (Some n))"
      using predecessor_loop_step[OF nn, of c] Some by simp
    then have "predecessor h ?m = Some (Inr (Some n))"
      using mn up by (simp add: predecessor_def)
    then show ?thesis using su by simp
  qed
qed

subsection \<open>The example tree after the removal of its root node\<close>

lemma example_after_reach:
  "x \<in> reach (heap example_after_node_remove) (Some 0) \<Longrightarrow> x \<in> {0, 1, 2, 4, 5}"
proof (induction rule: reach.induct)
  case (reach_root a)
  then show ?case by simp
next
  case (reach_left a nd c)
  then show ?case
    by (auto simp: example_after_node_remove_def lookup_def nth_Cons' split: if_splits)
next
  case (reach_right a nd c)
  then show ?case
    by (auto simp: example_after_node_remove_def lookup_def nth_Cons' split: if_splits)
qed

section \<open>The claims\<close>

text \<open>
  Claim C1: whatever tree one starts from and whatever inserts and removes are applied to
  it, failing ones included, each operation returns and a traversal of the resulting tree
  visits the nodes in strictly ascending key order.
\<close>

theorem traversal_ascending_after_operations:
  assumes "well_formed t"
  shows "\<exists>t' xs. apply_ops t cs = Some t' \<and> well_formed t' \<and>
     tree_traverse t' = Some (Inr xs) \<and> sorted_wrt (<) (map (key_of (heap t')) xs)"
proof -
  from assms obtain lay where "linked t lay" "ordered (heap t) lay"
    unfolding well_formed_def by blast
  from apply_ops_invariant[OF this, of cs] obtain t' lay' where t':
    "apply_ops t cs = Some t'" "linked t' lay'" "ordered (heap t') lay'"
    by blast
  have "tree_traverse t' = Some (Inr (inorder lay'))" using t'(2) by (rule linked_traverse)
  moreover have "sorted_wrt (<) (map (key_of (heap t')) (inorder lay'))"
    using t'(3) by (simp add: ordered_def)
  moreover have "well_formed t'" unfolding well_formed_def using t'(2,3) by blast
  ultimately show ?thesis using t'(1) by blast
qed

theorem traversal_ascending_after_operations_witness:
  "well_formed example_tree \<and>
   (\<exists>t' xs. apply_ops example_tree [Remove 5, Insert 6 ''six'', Insert 8 ''huit'', Remove 1] = Some t' \<and>
      well_formed t' \<and> tree_traverse t' = Some (Inr xs) \<and>
      sorted_wrt (<) (map (key_of (heap t')) xs)) \<and>
   Option.bind (apply_ops example_tree [Remove 5, Insert 6 ''six'', Insert 8 ''huit'', Remove 1])
     tree_entries =
     Some (Inr [(2, ''two''), (3, ''three''), (6, ''six''), (7, ''seven''), (8, ''eight''),
                (9, ''nine'')])"
proof -
  have "Option.bind (apply_ops example_tree [Remove 5, Insert 6 ''six'', Insert 8 ''huit'', Remove 1])
     tree_entries =
     Some (Inr [(2, ''two''), (3, ''three''), (6, ''six''), (7, ''seven''), (8, ''eight''),
                (9, ''nine'')])"
    by code_simp
  then show ?thesis
    using example_well_formed
      traversal_ascending_after_operations[OF example_well_formed,
        of "[Remove 5, Insert 6 ''six'', Insert 8 ''huit'', Remove 1]"]
    by blast
qed

text \<open>
  Claim C2: for a key that is not yet in the tree, the tree-level \<^verbatim>\<open>insert(key, value)\<close>
  returns a reference to the node it created. The comment above
  \<^verbatim>\<open>BinarySearchTree.prototype.insert\<close> says so (``Returns the created node''), but the
  function drops the node that \<^verbatim>\<open>this.root.insert\<close> returns and has no \<^verbatim>\<open>return\<close> statement:
  it returns \<^verbatim>\<open>undefined\<close>, on the empty tree and on the example tree alike.
\<close>

theorem tree_insert_returns_undefined:
  "tree_insert (new_BinarySearchTree :: (int, string) bst) 5 ''five'' =
     Some (Inr Undefined,
       \<lparr>heap = [\<lparr>key = 5, val = ''five'', parent = None, leftChild = None, rightChild = None\<rparr>],
        root = Some 0, numNodes = 1\<rparr>) \<and>
   map_option fst (tree_insert example_tree 4 ''four'') = Some (Inr Undefined) \<and>
   map_option fst (node_insert (heap example_tree) 0 4 ''four'') = Some (Inr 6)"
  by code_simp

text \<open>
  Claim C3: when a node \<open>n\<close> with both children is removed, the node \<open>m\<close> that takes its
  place is its predecessor, the maximum of its left subtree, if \<open>n\<close> is the root or a left
  child, and its successor, the minimum of its right subtree, if \<open>n\<close> is a right child.
  The maximum of the left subtree is the node with the greatest key among the nodes that can
  be reached from the left child, and the predecessor is the node with the greatest key
  among the nodes of the tree whose key is less than the key of \<open>n\<close> (and likewise for the
  minimum and the successor); \<^verbatim>\<open>max()\<close> and \<^verbatim>\<open>predecessor()\<close> of the source return this node.
  Taking the place of \<open>n\<close>: \<open>m\<close> is what \<^verbatim>\<open>remove\<close> returns; it gets the parent of \<open>n\<close>; the
  child pointer of the parent that pointed to \<open>n\<close>, or the tree's \<^verbatim>\<open>root\<close>, points to \<open>m\<close>; both
  children of \<open>n\<close> become the children of \<open>m\<close> (when \<open>m\<close> is itself that child of \<open>n\<close>, it keeps
  its own child on that side); and the nodes below \<open>m\<close> are those that were below \<open>n\<close>.
\<close>

theorem removal_replacement:
  assumes "well_formed t" and "n \<in> tree_nodes t" and "lookup (heap t) n = Some nn"
    and "leftChild nn = Some l" and "rightChild nn = Some r"
  shows "\<exists>m h' mn t'. node_remove (heap t) n = Some (Inr (Some m), h') \<and>
     tree_remove t (key nn) = Some (Inr Undefined, t') \<and> heap t' = h' \<and>
     lookup h' m = Some mn \<and> parent mn = parent nn \<and>
     reach h' (Some m) = reach (heap t) (Some n) - {n} \<and>
     (root t = Some n \<longrightarrow> root t' = Some m) \<and>
     (\<forall>x xn. parent nn = Some x \<longrightarrow> lookup (heap t) x = Some xn \<longrightarrow>
        lookup h' x = Some (if leftChild xn = Some n then xn\<lparr>leftChild := Some m\<rparr>
                            else xn\<lparr>rightChild := Some m\<rparr>)) \<and>
     ((root t = Some n \<or>
       (\<exists>x xn. parent nn = Some x \<and> lookup (heap t) x = Some xn \<and> leftChild xn = Some n)) \<longrightarrow>
        m \<in> reach (heap t) (Some l) \<and>
        (\<forall>a\<in>reach (heap t) (Some l). key_of (heap t) a \<le> key_of (heap t) m) \<and>
        key_of (heap t) m < key nn \<and>
        (\<forall>a\<in>tree_nodes t. key_of (heap t) a < key nn \<longrightarrow> key_of (heap t) a \<le> key_of (heap t) m) \<and>
        predecessor (heap t) n = Some (Inr (Some m)) \<and> node_max (heap t) l = Some (Inr m) \<and>
        rightChild mn = Some r \<and>
        (\<forall>ln. lookup (heap t) l = Some ln \<longrightarrow>
           leftChild mn = (if m = l then leftChild ln else Some l))) \<and>
     ((\<exists>x xn. parent nn = Some x \<and> lookup (heap t) x = Some xn \<and> rightChild xn = Some n) \<longrightarrow>
        m \<in> reach (heap t) (Some r) \<and>
        (\<forall>a\<in>reach (heap t) (Some r). key_of (heap t) m \<le> key_of (heap t) a) \<and>
        key nn < key_of (heap t) m \<and>
        (\<forall>a\<in>tree_nodes t. key nn < key_of (heap t) a \<longrightarrow> key_of (heap t) m \<le> key_of (heap t) a) \<and>
        successor (heap t) n = Some (Inr (Some m)) \<and> node_min (heap t) r = Some (Inr m) \<and>
        leftChild mn = Some l \<and>
        (\<forall>rn. lookup (heap t) r = Some rn \<longrightarrow>
           rightChild mn = (if m = r then rightChild rn else Some r)))"
proof -
  from assms(1) obtain lay where lay: "linked t lay" "ordered (heap t) lay"
    unfolding well_formed_def by blast
  then have sh: "shape (heap t) (root t) None lay" and di: "distinct (inorder lay)"
    by (auto simp: linked_def)
  have n: "n \<in> set_tree lay" using assms(2) lay(1) by (simp add: linked_nodes)
  have k: "key_of (heap t) n = key nn" using assms(3) by (rule lookup_key_of)
  have tn: "tree_nodes t = set_tree lay" using lay(1) by (rule linked_nodes)
  from node_remove_two_children[OF sh di n assms(3,4,5) lay(2), folded tn, unfolded k]
  obtain m h' mn b where m:
    "node_remove (heap t) n = Some (Inr (Some m), h')" "lookup h' m = Some mn"
    "parent mn = parent nn" "reach h' (Some m) = reach (heap t) (Some n) - {n}"
    "root t = Some n \<longrightarrow> b"
    "\<forall>x xn. parent nn = Some x \<longrightarrow> lookup (heap t) x = Some xn \<longrightarrow>
        (leftChild xn = Some n \<longleftrightarrow> b) \<and> (rightChild xn = Some n \<longleftrightarrow> \<not> b)"
    "\<forall>x xn. parent nn = Some x \<longrightarrow> lookup (heap t) x = Some xn \<longrightarrow>
        lookup h' x = Some (if leftChild xn = Some n then xn\<lparr>leftChild := Some m\<rparr>
                            else xn\<lparr>rightChild := Some m\<rparr>)"
    "b \<longrightarrow> node_max (heap t) l = Some (Inr m) \<and> rightChild mn = Some r \<and>
        (\<forall>ln. lookup (heap t) l = Some ln \<longrightarrow>
           leftChild mn = (if m = l then leftChild ln else Some l)) \<and>
        m \<in> reach (heap t) (Some l) \<and>
        (\<forall>a\<in>reach (heap t) (Some l). key_of (heap t) a \<le> key_of (heap t) m) \<and>
        key_of (heap t) m < key nn \<and>
        (\<forall>a\<in>tree_nodes t. key_of (heap t) a < key nn \<longrightarrow> key_of (heap t) a \<le> key_of (heap t) m)"
    "\<not> b \<longrightarrow> node_min (heap t) r = Some (Inr m) \<and> leftChild mn = Some l \<and>
        (\<forall>rn. lookup (heap t) r = Some rn \<longrightarrow>
           rightChild mn = (if m = r then rightChild rn else Some r)) \<and>
        m \<in> reach (heap t) (Some r) \<and>
        (\<forall>a\<in>reach (heap t) (Some r). key_of (heap t) m \<le> key_of (heap t) a) \<and>
        key nn < key_of (heap t) m \<and>
        (\<forall>a\<in>tree_nodes t. key nn < key_of (heap t) a \<longrightarrow> key_of (heap t) m \<le> key_of (heap t) a)"
    by (elim exE conjE) (rule that; assumption)
  from tree_remove_present[OF lay n] obtain t' rp where t':
    "tree_remove t (key_of (heap t) n) = Some (Inr Undefined, t')"
    "node_remove (heap t) n = Some (Inr rp, heap t')"
    "root t' = (if root t = Some n then rp else root t)"
    by blast
  have 1: "tree_remove t (key nn) = Some (Inr Undefined, t')" "heap t' = h'"
    "root t = Some n \<longrightarrow> root t' = Some m"
    using t' m(1) k by auto
  have 2: "predecessor (heap t) n = Some (Inr (Some m))" if "node_max (heap t) l = Some (Inr m)"
    using assms(3,4) that by (simp add: predecessor_def)
  have 3: "successor (heap t) n = Some (Inr (Some m))" if "node_min (heap t) r = Some (Inr m)"
    using assms(3,5) that by (simp add: successor_def)
  have 4: "(root t = Some n \<or>
       (\<exists>x xn. parent nn = Some x \<and> lookup (heap t) x = Some xn \<and> leftChild xn = Some n)) \<longrightarrow>
        m \<in> reach (heap t) (Some l) \<and>
        (\<forall>a\<in>reach (heap t) (Some l). key_of (heap t) a \<le> key_of (heap t) m) \<and>
        key_of (heap t) m < key nn \<and>
        (\<forall>a\<in>tree_nodes t. key_of (heap t) a < key nn \<longrightarrow> key_of (heap t) a \<le> key_of (heap t) m) \<and>
        predecessor (heap t) n = Some (Inr (Some m)) \<and> node_max (heap t) l = Some (Inr m) \<and>
        rightChild mn = Some r \<and>
        (\<forall>ln. lookup (heap t) l = Some ln \<longrightarrow>
           leftChild mn = (if m = l then leftChild ln else Some l))"
  proof
    assume "root t = Some n \<or>
       (\<exists>x xn. parent nn = Some x \<and> lookup (heap t) x = Some xn \<and> leftChild xn = Some n)"
    then have b: b using m(5,6) by blast
    from m(8) b have c: "node_max (heap t) l = Some (Inr m) \<and> rightChild mn = Some r \<and>
        (\<forall>ln. lookup (heap t) l = Some ln \<longrightarrow>
           leftChild mn = (if m = l then leftChild ln else Some l)) \<and>
        m \<in> reach (heap t) (Some l) \<and>
        (\<forall>a\<in>reach (heap t) (Some l). key_of (heap t) a \<le> key_of (heap t) m) \<and>
        key_of (heap t) m < key nn \<and>
        (\<forall>a\<in>tree_nodes t. key_of (heap t) a < key nn \<longrightarrow> key_of (heap t) a \<le> key_of (heap t) m)"
      by (rule mp)
    from c have "predecessor (heap t) n = Some (Inr (Some m))" by (intro 2) (rule conjunct1)
    with c show "m \<in> reach (heap t) (Some l) \<and>
        (\<forall>a\<in>reach (heap t) (Some l). key_of (heap t) a \<le> key_of (heap t) m) \<and>
        key_of (heap t) m < key nn \<and>
        (\<forall>a\<in>tree_nodes t. key_of (heap t) a < key nn \<longrightarrow> key_of (heap t) a \<le> key_of (heap t) m) \<and>
        predecessor (heap t) n = Some (Inr (Some m)) \<and> node_max (heap t) l = Some (Inr m) \<and>
        rightChild mn = Some r \<and>
        (\<forall>ln. lookup (heap t) l = Some ln \<longrightarrow>
           leftChild mn = (if m = l then leftChild ln else Some l))"
      by (elim conjE) (intro conjI; assumption)
  qed
  have 5: "(\<exists>x xn. parent nn = Some x \<and> lookup (heap t) x = Some xn \<and> rightChild xn = Some n) \<longrightarrow>
        m \<in> reach (heap t) (Some r) \<and>
        (\<forall>a\<in>reach (heap t) (Some r). key_of (heap t) m \<le> key_of (heap t) a) \<and>
        key nn < key_of (heap t) m \<and>
        (\<forall>a\<in>tree_nodes t. key nn < key_of (heap t) a \<longrightarrow> key_of (heap t) m \<le> key_of (heap t) a) \<and>
        successor (heap t) n = Some (Inr (Some m)) \<and> node_min (heap t) r = Some (Inr m) \<and>
        leftChild mn = Some l \<and>
        (\<forall>rn. lookup (heap t) r = Some rn \<longrightarrow>
           rightChild mn = (if m = r then rightChild rn else Some r))"
  proof
    assume "\<exists>x xn. parent nn = Some x \<and> lookup (heap t) x = Some xn \<and> rightChild xn = Some n"
    then have b: "\<not> b" using m(6) by blast
    from m(9) b have c: "node_min (heap t) r = Some (Inr m) \<and> leftChild mn = Some l \<and>
        (\<forall>rn. lookup (heap t) r = Some rn \<longrightarrow>
           rightChild mn = (if m = r then rightChild rn else Some r)) \<and>
        m \<in> reach (heap t) (Some r) \<and>
        (\<forall>a\<in>reach (heap t) (Some r). key_of (heap t) m \<le> key_of (heap t) a) \<and>
        key nn < key_of (heap t) m \<and>
        (\<forall>a\<in>tree_nodes t. key nn < key_of (heap t) a \<longrightarrow> key_of (heap t) m \<le> key_of (heap t) a)"
      by (rule mp)
    from c have "successor (heap t) n = Some (Inr (Some m))" by (intro 3) (rule conjunct1)
    with c show "m \<in> reach (heap t) (Some r) \<and>
        (\<forall>a\<in>reach (heap t) (Some r). key_of (heap t) m \<le> key_of (heap t) a) \<and>
        key nn < key_of (heap t) m \<and>
        (\<forall>a\<in>tree_nodes t. key nn < key_of (heap t) a \<longrightarrow> key_of (heap t) m \<le> key_of (heap t) a) \<and>
        successor (heap t) n = Some (Inr (Some m)) \<and> node_min (heap t) r = Some (Inr m) \<and>
        leftChild mn = Some l \<and>
        (\<forall>rn. lookup (heap t) r = Some rn \<longrightarrow>
           rightChild mn = (if m = r then rightChild rn else Some r))"
      by (elim conjE) (intro conjI; assumption)
  qed
  show ?thesis
    by (rule exI[of _ m], rule exI[of _ h'], rule exI[of _ mn], rule exI[of _ t'])
       (intro conjI m(1) m(2) m(3) m(4) m(7) 1 4 5)
qed

theorem removal_replacement_witness:
  "well_formed example_tree \<and> 0 \<in> tree_nodes example_tree \<and> 2 \<in> tree_nodes example_tree \<and>
   lookup (heap example_tree) 0 = Some (heap example_tree ! 0) \<and>
   leftChild (heap example_tree ! 0) = Some 1 \<and> rightChild (heap example_tree ! 0) = Some 2 \<and>
   lookup (heap example_tree) 2 = Some (heap example_tree ! 2) \<and>
   leftChild (heap example_tree ! 2) = Some 4 \<and> rightChild (heap example_tree ! 2) = Some 5 \<and>
   root example_tree = Some 0 \<and> parent (heap example_tree ! 2) = Some 0 \<and>
   map_option fst (node_remove (heap example_tree) 0) = Some (Inr (Some 3)) \<and>
   predecessor (heap example_tree) 0 = Some (Inr (Some 3)) \<and>
   node_max (heap example_tree) 1 = Some (Inr 3) \<and>
   3 \<in> reach (heap example_tree) (Some 1) \<and> 1 \<in> reach (heap example_tree) (Some 1) \<and>
   key_of (heap example_tree) 1 \<le> key_of (heap example_tree) 3 \<and>
   key_of (heap example_tree) 3 < key (heap example_tree ! 0) \<and>
   map_option fst (node_remove (heap example_tree) 2) = Some (Inr (Some 5)) \<and>
   successor (heap example_tree) 2 = Some (Inr (Some 5)) \<and>
   node_min (heap example_tree) 5 = Some (Inr 5) \<and>
   5 \<in> reach (heap example_tree) (Some 5) \<and>
   key (heap example_tree ! 2) < key_of (heap example_tree) 5"
proof -
  have n0: "0 \<in> tree_nodes example_tree" and n2: "2 \<in> tree_nodes example_tree"
    by (simp_all add: example_nodes)
  have l0: "lookup (heap example_tree) 0 = Some (heap example_tree ! 0)"
    and l2: "lookup (heap example_tree) 2 = Some (heap example_tree ! 2)"
    by (simp_all add: lookup_def example_tree_def)
  have c0: "leftChild (heap example_tree ! 0) = Some 1" "rightChild (heap example_tree ! 0) = Some 2"
    and c2: "leftChild (heap example_tree ! 2) = Some 4" "rightChild (heap example_tree ! 2) = Some 5"
    and p2: "parent (heap example_tree ! 2) = Some 0"
    and r: "root example_tree = Some 0"
    by (simp_all add: example_tree_def)
  have right: "\<exists>x xn. parent (heap example_tree ! 2) = Some x \<and>
      lookup (heap example_tree) x = Some xn \<and> rightChild xn = Some 2"
    using p2 l0 c0(2) by blast
  have e0: "map_option fst (node_remove (heap example_tree) 0) = Some (Inr (Some 3))"
    and e2: "map_option fst (node_remove (heap example_tree) 2) = Some (Inr (Some 5))"
    by code_simp+
  have r1: "1 \<in> reach (heap example_tree) (Some 1)" by (rule reach.reach_root) simp
  from removal_replacement[OF example_well_formed n0 l0 c0] r obtain m h' where a:
    "node_remove (heap example_tree) 0 = Some (Inr (Some m), h')"
    "m \<in> reach (heap example_tree) (Some 1)"
    "\<forall>a\<in>reach (heap example_tree) (Some 1).
      key_of (heap example_tree) a \<le> key_of (heap example_tree) m"
    "key_of (heap example_tree) m < key (heap example_tree ! 0)"
    "predecessor (heap example_tree) 0 = Some (Inr (Some m))"
    "node_max (heap example_tree) 1 = Some (Inr m)"
    by blast
  have m3: "m = 3" using a(1) e0 by simp
  have a3: "key_of (heap example_tree) 1 \<le> key_of (heap example_tree) 3"
    using a(3) r1 unfolding m3 by blast
  from removal_replacement[OF example_well_formed n2 l2 c2] right obtain s h'' where b:
    "node_remove (heap example_tree) 2 = Some (Inr (Some s), h'')"
    "s \<in> reach (heap example_tree) (Some 5)"
    "key (heap example_tree ! 2) < key_of (heap example_tree) s"
    "successor (heap example_tree) 2 = Some (Inr (Some s))"
    "node_min (heap example_tree) 5 = Some (Inr s)"
    by blast
  have s5: "s = 5" using b(1) e2 by simp
  show ?thesis
    using example_well_formed n0 n2 l0 l2 c0 c2 p2 r e0 e2 r1 a3
      a(2,4,5,6)[unfolded m3] b(2-)[unfolded s5]
    by (intro conjI) assumption+
qed

text \<open>
  Claim C4, as stated: removing a node \<open>n\<close>, by \<^verbatim>\<open>n.remove()\<close> or by the tree's
  \<^verbatim>\<open>remove(key)\<close>, leaves the key and the value of every other node as they were, and
  every other node can still be reached from the tree's root. This fails for
  \<^verbatim>\<open>n.remove()\<close> on the root node: a node has no link to its container, so the tree's \<^verbatim>\<open>root\<close>
  still points to the removed node, whose links are those of before the removal, and the
  predecessor that was moved to the top is no longer below them. In the example tree, after
  \<^verbatim>\<open>remove()\<close> on node 0, node 3 is not reachable from \<^verbatim>\<open>root\<close>, and a traversal of the tree
  visits nodes 1, 0, 4, 2, 5.
\<close>

theorem node_remove_of_root_counterexample:
  "tree_node_remove example_tree 0 = Some (Inr (Some 3), example_after_node_remove) \<and>
   3 \<in> tree_nodes example_tree \<and> (3::nat) \<noteq> 0 \<and>
   3 \<notin> tree_nodes example_after_node_remove \<and>
   tree_traverse example_after_node_remove = Some (Inr [1, 0, 4, 2, 5])"
proof -
  have 1: "tree_node_remove example_tree 0 = Some (Inr (Some 3), example_after_node_remove)"
    by code_simp
  have 2: "tree_traverse example_after_node_remove = Some (Inr [1, 0, 4, 2, 5])"
    by code_simp
  have "root example_after_node_remove = Some 0" by (simp add: example_after_node_remove_def)
  then have 3: "3 \<notin> tree_nodes example_after_node_remove"
    using example_after_reach[of 3] by (auto simp: tree_nodes_def)
  show ?thesis using 1 2 3 by (simp add: example_nodes)
qed

text \<open>
  Claim C4, amended: removing a node \<open>n\<close> of a well-formed tree leaves the key and the value
  of every node as they were. After the tree's \<^verbatim>\<open>remove(key)\<close>, every other node of the
  tree can be reached from the tree's root. After \<^verbatim>\<open>n.remove()\<close>, every other node can be
  reached from the tree's root if \<open>n\<close> was not the root, and from the node that
  \<^verbatim>\<open>n.remove()\<close> returned if \<open>n\<close> was the root.
\<close>

theorem removal_keeps_other_nodes:
  assumes "well_formed t" and "n \<in> tree_nodes t"
  shows "\<exists>rp t1 t2. tree_node_remove t n = Some (Inr rp, t1) \<and>
     tree_remove t (key_of (heap t) n) = Some (Inr Undefined, t2) \<and> heap t2 = heap t1 \<and>
     (\<forall>a. a < length (heap t) \<longrightarrow>
        key_of (heap t1) a = key_of (heap t) a \<and> val_of (heap t1) a = val_of (heap t) a) \<and>
     (\<forall>a\<in>tree_nodes t. a \<noteq> n \<longrightarrow> a \<in> tree_nodes t2) \<and>
     (\<forall>a\<in>tree_nodes t. a \<noteq> n \<longrightarrow>
        a \<in> reach (heap t1) (if root t = Some n then rp else root t)) \<and>
     (root t \<noteq> Some n \<longrightarrow> (\<forall>a\<in>tree_nodes t. a \<noteq> n \<longrightarrow> a \<in> tree_nodes t1))"
proof -
  from assms(1) obtain lay where lay: "linked t lay" "ordered (heap t) lay"
    unfolding well_formed_def by blast
  have di: "distinct (inorder lay)" using lay(1) by (simp add: linked_def)
  have n: "n \<in> set_tree lay" using assms(2) lay(1) by (simp add: linked_nodes)
  from tree_remove_present[OF lay n] obtain t2 rp where t2:
    "tree_remove t (key_of (heap t) n) = Some (Inr Undefined, t2)"
    "node_remove (heap t) n = Some (Inr rp, heap t2)"
    "root t2 = (if root t = Some n then rp else root t)"
    "linked t2 (remove_tree n True lay)" "relinked (heap t) (heap t2)"
    by blast
  let ?t1 = "t\<lparr>heap := heap t2\<rparr>"
  have 1: "tree_node_remove t n = Some (Inr rp, ?t1)"
    using t2(2) by (simp add: tree_node_remove_def)
  have 2: "\<forall>a. a < length (heap t) \<longrightarrow>
        key_of (heap ?t1) a = key_of (heap t) a \<and> val_of (heap ?t1) a = val_of (heap t) a"
    using t2(5) by (simp add: relinked_def)
  have nodes2: "tree_nodes t2 = set_tree lay - {n}"
    using linked_nodes[OF t2(4)] di by (simp add: set_remove_tree)
  have 3: "\<forall>a\<in>tree_nodes t. a \<noteq> n \<longrightarrow> a \<in> tree_nodes t2"
    using nodes2 linked_nodes[OF lay(1)] by simp
  have r: "reach (heap ?t1) (if root t = Some n then rp else root t) = tree_nodes t2"
    using t2(3) by (simp add: tree_nodes_def)
  have 4: "\<forall>a\<in>tree_nodes t. a \<noteq> n \<longrightarrow>
        a \<in> reach (heap ?t1) (if root t = Some n then rp else root t)"
    unfolding r by (rule 3)
  have 5: "root t \<noteq> Some n \<longrightarrow> (\<forall>a\<in>tree_nodes t. a \<noteq> n \<longrightarrow> a \<in> tree_nodes ?t1)"
    using 4 by (auto simp: tree_nodes_def)
  show ?thesis
    using 1 t2(1) 2 3 4 5 by (intro exI[of _ rp] exI[of _ ?t1] exI[of _ t2]) simp
qed

theorem removal_keeps_other_nodes_witness:
  "well_formed example_tree \<and> 0 \<in> tree_nodes example_tree \<and> 2 \<in> tree_nodes example_tree \<and>
   root example_tree \<noteq> Some 2 \<and>
   (\<exists>rp t1 t2. tree_node_remove example_tree 0 = Some (Inr rp, t1) \<and>
      tree_remove example_tree (key_of (heap example_tree) 0) = Some (Inr Undefined, t2) \<and>
      (\<forall>a\<in>tree_nodes example_tree. a \<noteq> 0 \<longrightarrow> a \<in> tree_nodes t2) \<and>
      (\<forall>a\<in>tree_nodes example_tree. a \<noteq> 0 \<longrightarrow> a \<in> reach (heap t1) rp)) \<and>
   (\<exists>rp t1. tree_node_remove example_tree 2 = Some (Inr rp, t1) \<and>
      (\<forall>a\<in>tree_nodes example_tree. a \<noteq> 2 \<longrightarrow> a \<in> tree_nodes t1))"
proof -
  have n0: "0 \<in> tree_nodes example_tree" and n2: "2 \<in> tree_nodes example_tree"
    by (simp_all add: example_nodes)
  have r: "root example_tree = Some 0" "root example_tree \<noteq> Some 2"
    by (simp_all add: example_tree_def)
  from removal_keeps_other_nodes[OF example_well_formed n0] r(1)
  have a: "\<exists>rp t1 t2. tree_node_remove example_tree 0 = Some (Inr rp, t1) \<and>
      tree_remove example_tree (key_of (heap example_tree) 0) = Some (Inr Undefined, t2) \<and>
      (\<forall>a\<in>tree_nodes example_tree. a \<noteq> 0 \<longrightarrow> a \<in> tree_nodes t2) \<and>
      (\<forall>a\<in>tree_nodes example_tree. a \<noteq> 0 \<longrightarrow> a \<in> reach (heap t1) rp)"
    by auto
  from removal_keeps_other_nodes[OF example_well_formed n2] r(2)
  have b: "\<exists>rp t1. tree_node_remove example_tree 2 = Some (Inr rp, t1) \<and>
      (\<forall>a\<in>tree_nodes example_tree. a \<noteq> 2 \<longrightarrow> a \<in> tree_nodes t1)"
    by blast
  show ?thesis using example_well_formed n0 n2 r(2) a b by blast
qed

text \<open>
  Claim C5: for every tree that a sequence of inserts and removes builds from the empty
  tree, \<^verbatim>\<open>size()\<close> is the number of nodes that a traversal visits, which is the number of
  nodes that can be reached from the root.
\<close>

theorem size_counts_nodes:
  "\<exists>t' xs. apply_ops new_BinarySearchTree cs = Some t' \<and> tree_traverse t' = Some (Inr xs) \<and>
     size_bst t' = int (length xs) \<and> size_bst t' = int (card (tree_nodes t'))"
proof -
  have "ordered (heap new_BinarySearchTree) Leaf" by simp
  from apply_ops_invariant[OF linked_new this, of cs] obtain t' lay' where t':
    "apply_ops new_BinarySearchTree cs = Some t'" "linked t' lay'"
    "numNodes t' - int (length (inorder lay')) =
       numNodes (new_BinarySearchTree :: ('a, 'b) bst) - int (length (inorder (Leaf :: ref tree)))"
    by blast
  have 1: "size_bst t' = int (length (inorder lay'))"
    using t'(3) by (simp add: size_bst_def new_BinarySearchTree_def)
  have "distinct (inorder lay')" using t'(2) by (simp add: linked_def)
  then have "card (set_tree lay') = length (inorder lay')"
    using distinct_card[of "inorder lay'"] by simp
  then have 2: "size_bst t' = int (card (tree_nodes t'))"
    using 1 linked_nodes[OF t'(2)] by simp
  show ?thesis using t'(1) linked_traverse[OF t'(2)] 1 2 by blast
qed

theorem size_counts_nodes_witness:
  "(\<exists>t' xs. apply_ops new_BinarySearchTree (example_ops @ [Remove 5, Remove 99, Insert 2 ''deux'']) = Some t' \<and>
     tree_traverse t' = Some (Inr xs) \<and>
     size_bst t' = int (length xs) \<and> size_bst t' = int (card (tree_nodes t'))) \<and>
   map_option size_bst
     (apply_ops new_BinarySearchTree (example_ops @ [Remove 5, Remove 99, Insert 2 ''deux''])) =
     Some 5 \<and>
   Option.bind (apply_ops new_BinarySearchTree (example_ops @ [Remove 5, Remove 99, Insert 2 ''deux'']))
     tree_traverse = Some (Inr [1, 3, 4, 2, 5])"
proof -
  have "map_option size_bst
     (apply_ops new_BinarySearchTree (example_ops @ [Remove 5, Remove 99, Insert 2 ''deux''])) =
     Some 5"
    by code_simp
  moreover have "Option.bind
     (apply_ops new_BinarySearchTree (example_ops @ [Remove 5, Remove 99, Insert 2 ''deux'']))
     tree_traverse = Some (Inr [1, 3, 4, 2, 5])"
    by code_simp
  ultimately show ?thesis
    using size_counts_nodes[of "example_ops @ [Remove 5, Remove 99, Insert 2 ''deux'']"]
    by blast
qed

text \<open>
  Claim C6: inserting a key that is already in the tree fails with the duplicate-key
  exception, and the tree after the failed call is the tree before it; in particular
  \<^verbatim>\<open>size()\<close> and the key/value sequence of a traversal are the same.
\<close>

theorem tree_insert_duplicate:
  assumes "well_formed t" and "k \<in> tree_keys t"
  shows "\<exists>t'. tree_insert t k v = Some (Inl (DuplicateKey k), t') \<and> t' = t \<and>
     size_bst t' = size_bst t \<and> tree_entries t' = tree_entries t"
proof -
  from assms(1) obtain lay where "linked t lay" "ordered (heap t) lay"
    unfolding well_formed_def by blast
  then have "tree_insert t k v = Some (Inl (DuplicateKey k), t)"
    using assms(2) by (rule tree_insert_dup)
  then show ?thesis by simp
qed

theorem tree_insert_duplicate_witness:
  "well_formed example_tree \<and> 8 \<in> tree_keys example_tree \<and>
   (\<exists>t'. tree_insert example_tree 8 ''huit'' = Some (Inl (DuplicateKey 8), t') \<and>
      t' = example_tree \<and> size_bst t' = size_bst example_tree \<and>
      tree_entries t' = tree_entries example_tree)"
proof -
  have k: "8 \<in> tree_keys example_tree" by (simp add: example_keys)
  show ?thesis
    using example_well_formed k tree_insert_duplicate[OF example_well_formed k, of "''huit''"]
    by blast
qed

text \<open>
  Claim C7: on every tree, the empty one included, \<^verbatim>\<open>remove(key)\<close> of a key that is not in
  the tree fails with the key-not-found exception and leaves the tree as it was (root,
  count and every link); for a key that is in the tree, \<^verbatim>\<open>remove(key)\<close> does not fail.
\<close>

theorem tree_remove_key_not_found:
  assumes "well_formed t"
  shows "(k \<notin> tree_keys t \<longrightarrow> tree_remove t k = Some (Inl KeyNotFound, t)) \<and>
     (k \<in> tree_keys t \<longrightarrow> (\<exists>t'. tree_remove t k = Some (Inr Undefined, t')))"
proof -
  from assms obtain lay where lay: "linked t lay" "ordered (heap t) lay"
    unfolding well_formed_def by blast
  have "tree_remove t k = Some (Inl KeyNotFound, t)" if "k \<notin> tree_keys t"
    using lay(1) that by (rule tree_remove_absent)
  moreover have "\<exists>t'. tree_remove t k = Some (Inr Undefined, t')" if "k \<in> tree_keys t"
  proof -
    from that obtain a where a: "a \<in> set_tree lay" "k = key_of (heap t) a"
      using lay(1) by (auto simp: linked_keys)
    from tree_remove_present[OF lay a(1)] show ?thesis using a(2) by blast
  qed
  ultimately show ?thesis by blast
qed

theorem tree_remove_key_not_found_witness:
  "well_formed example_tree \<and> well_formed (new_BinarySearchTree :: (int, string) bst) \<and>
   99 \<notin> tree_keys example_tree \<and>
   tree_remove example_tree 99 = Some (Inl KeyNotFound, example_tree) \<and>
   tree_remove (new_BinarySearchTree :: (int, string) bst) 99 =
     Some (Inl KeyNotFound, new_BinarySearchTree) \<and>
   5 \<in> tree_keys example_tree \<and>
   (\<exists>t'. tree_remove example_tree 5 = Some (Inr Undefined, t'))"
proof -
  have a: "99 \<notin> tree_keys example_tree" and p: "5 \<in> tree_keys example_tree"
    by (simp_all add: example_keys)
  have e: "99 \<notin> tree_keys (new_BinarySearchTree :: (int, string) bst)"
    by (simp add: new_keys)
  show ?thesis
    using example_well_formed well_formed_new a p e
      tree_remove_key_not_found[OF example_well_formed, of 99]
      tree_remove_key_not_found[OF example_well_formed, of 5]
      tree_remove_key_not_found[OF well_formed_new, of 99]
    by blast
qed

text \<open>
  Claim C8: for every node \<open>n\<close> of a tree that satisfies the invariants, \<^verbatim>\<open>predecessor()\<close>
  and \<^verbatim>\<open>successor()\<close> return; if \<^verbatim>\<open>n.predecessor()\<close> is a node, the successor of that node
  is \<open>n\<close>, and if \<^verbatim>\<open>n.successor()\<close> is a node, the predecessor of that node is \<open>n\<close>.
\<close>

theorem predecessor_successor_inverse:
  assumes "well_formed t" and "n \<in> tree_nodes t"
  shows "(\<exists>r. predecessor (heap t) n = Some (Inr r)) \<and>
     (\<exists>r. successor (heap t) n = Some (Inr r)) \<and>
     (\<forall>m. predecessor (heap t) n = Some (Inr (Some m)) \<longrightarrow>
        successor (heap t) m = Some (Inr (Some n))) \<and>
     (\<forall>m. successor (heap t) n = Some (Inr (Some m)) \<longrightarrow>
        predecessor (heap t) m = Some (Inr (Some n)))"
proof -
  from assms(1) obtain lay where lay: "linked t lay" unfolding well_formed_def by blast
  then have sh: "shape (heap t) (root t) None lay" and di: "distinct (inorder lay)"
    by (auto simp: linked_def)
  have n: "n \<in> set_tree lay" using assms(2) lay by (simp add: linked_nodes)
  show ?thesis
    using predecessor_then_successor[OF sh di n] successor_then_predecessor[OF sh di n]
    by blast
qed

theorem predecessor_successor_inverse_witness:
  "well_formed example_tree \<and> 0 \<in> tree_nodes example_tree \<and>
   predecessor (heap example_tree) 0 = Some (Inr (Some 3)) \<and>
   successor (heap example_tree) 3 = Some (Inr (Some 0)) \<and>
   successor (heap example_tree) 0 = Some (Inr (Some 4)) \<and>
   predecessor (heap example_tree) 4 = Some (Inr (Some 0))"
proof -
  have n: "0 \<in> tree_nodes example_tree" by (simp add: example_nodes)
  have p: "predecessor (heap example_tree) 0 = Some (Inr (Some 3))" by code_simp
  have s: "successor (heap example_tree) 0 = Some (Inr (Some 4))" by code_simp
  show ?thesis
    using example_well_formed n p s predecessor_successor_inverse[OF example_well_formed n]
    by blast
qed

text \<open>
  Claim C9: inserting a key that is not in the tree and removing it at once gives a tree
  whose traversal shows the same key/value sequence as the tree before the insertion.
\<close>

theorem insert_then_remove:
  assumes "well_formed t" and "k \<notin> tree_keys t"
  shows "\<exists>t1 t2 es. tree_insert t k v = Some (Inr Undefined, t1) \<and>
     tree_remove t1 k = Some (Inr Undefined, t2) \<and>
     tree_entries t = Some (Inr es) \<and> tree_entries t2 = Some (Inr es) \<and>
     size_bst t2 = size_bst t"
proof -
  from assms(1) obtain lay where lay: "linked t lay" "ordered (heap t) lay"
    unfolding well_formed_def by blast
  let ?n = "length (heap t)"
  from tree_insert_new[OF lay assms(2), of v] obtain t1 lay1 where t1:
    "tree_insert t k v = Some (Inr Undefined, t1)" "linked t1 lay1" "ordered (heap t1) lay1"
    "numNodes t1 = numNodes t + 1"
    "inorder lay1 = inorder (ins_tree (key_of (heap t)) k ?n lay)"
    "set_tree lay1 = insert ?n (set_tree lay)" "ins_post (heap t) lay k v (heap t1)"
    by blast
  have n1: "?n \<in> set_tree lay1" using t1(6) by simp
  have kn: "key_of (heap t1) ?n = k" using t1(7) by (simp add: ins_post_def)
  from tree_remove_present[OF t1(2,3) n1] obtain t2 where t2:
    "tree_remove t1 k = Some (Inr Undefined, t2)" "linked t2 (remove_tree ?n True lay1)"
    "numNodes t2 = numNodes t1 - 1" "relinked (heap t1) (heap t2)"
    using kn by auto
  have sh: "shape (heap t) (root t) None lay" using lay(1) by (simp add: linked_def)
  have fresh: "?n \<notin> set_tree lay" using shape_less[OF sh] by auto
  have ka: "k \<notin> key_of (heap t) ` set_tree lay" using assms(2) lay(1) by (simp add: linked_keys)
  have "distinct (inorder lay1)" using t1(2) by (simp add: linked_def)
  then have "inorder (remove_tree ?n True lay1) = filter (\<lambda>x. x \<noteq> ?n) (inorder lay1)"
    by (rule inorder_remove_tree)
  also have "\<dots> = inorder lay" using t1(5) fresh ka by (simp add: filter_ins_tree)
  finally have tr2: "tree_traverse t2 = Some (Inr (inorder lay))"
    using linked_traverse[OF t2(2)] by simp
  have tr: "tree_traverse t = Some (Inr (inorder lay))" using lay(1) by (rule linked_traverse)
  have same: "key_of (heap t2) a = key_of (heap t) a \<and> val_of (heap t2) a = val_of (heap t) a"
    if "a \<in> set_tree lay" for a
  proof -
    have a: "a < ?n" using shape_less[OF sh that] .
    have "length (heap t1) = Suc ?n" using t1(7) by (simp add: ins_post_def)
    then have "a < length (heap t1)" using a by simp
    then have "key_of (heap t2) a = key_of (heap t1) a" "val_of (heap t2) a = val_of (heap t1) a"
      using t2(4) by (simp_all add: relinked_def)
    then show ?thesis using t1(7) a by (simp add: ins_post_def)
  qed
  let ?es = "map (\<lambda>a. (key_of (heap t) a, val_of (heap t) a)) (inorder lay)"
  have e: "tree_entries t = Some (Inr ?es)" using tr by (simp add: tree_entries_def)
  have "map (\<lambda>a. (key_of (heap t2) a, val_of (heap t2) a)) (inorder lay) = ?es"
    using same by simp
  then have e2: "tree_entries t2 = Some (Inr ?es)" using tr2 by (simp add: tree_entries_def)
  have "size_bst t2 = size_bst t" using t1(4) t2(3) by (simp add: size_bst_def)
  then show ?thesis using t1(1) t2(1) e e2 by blast
qed

theorem insert_then_remove_witness:
  "well_formed example_tree \<and> 4 \<notin> tree_keys example_tree \<and>
   (\<exists>t1 t2 es. tree_insert example_tree 4 ''four'' = Some (Inr Undefined, t1) \<and>
     tree_remove t1 4 = Some (Inr Undefined, t2) \<and>
     tree_entries example_tree = Some (Inr es) \<and> tree_entries t2 = Some (Inr es) \<and>
     size_bst t2 = size_bst example_tree)"
proof -
  have k: "4 \<notin> tree_keys example_tree" by (simp add: example_keys)
  show ?thesis
    using example_well_formed k insert_then_remove[OF example_well_formed k, of "''four''"]
    by blast
qed

text \<open>
  Claim C10: \<^verbatim>\<open>n.remove()\<close> leaves every field of \<open>n\<close> itself as it was: the record of \<open>n\<close>
  in the store (key, value, parent, leftChild, rightChild) after the call is the record
  before it. The node is a node of a tree.
\<close>

theorem node_remove_keeps_removed_node:
  assumes "well_linked t" and "n \<in> tree_nodes t"
  shows "\<exists>rp h' nd. node_remove (heap t) n = Some (Inr rp, h') \<and>
     lookup (heap t) n = Some nd \<and> lookup h' n = Some nd"
proof -
  from assms(1) obtain lay where lay: "linked t lay" unfolding well_linked_def by blast
  then have sh: "shape (heap t) (root t) None lay" and di: "distinct (inorder lay)"
    by (auto simp: linked_def)
  have n: "n \<in> set_tree lay" using assms(2) lay by (simp add: linked_nodes)
  from node_remove_shape[OF sh di n] obtain h' rp where
    "node_remove (heap t) n = Some (Inr rp, h')" "lookup h' n = lookup (heap t) n"
    by blast
  moreover obtain nd where "lookup (heap t) n = Some nd"
    using less_lookup[OF shape_less[OF sh n]] by blast
  ultimately show ?thesis by auto
qed

theorem node_remove_keeps_removed_node_witness:
  "well_linked example_tree \<and> 0 \<in> tree_nodes example_tree \<and>
   (\<exists>rp h' nd. node_remove (heap example_tree) 0 = Some (Inr rp, h') \<and>
      lookup (heap example_tree) 0 = Some nd \<and> lookup h' 0 = Some nd)"
proof -
  have n: "0 \<in> tree_nodes example_tree" by (simp add: example_nodes)
  show ?thesis
    using example_well_linked n node_remove_keeps_removed_node[OF example_well_linked n]
    by blast
qed

end
